theory Spec2Isabelle
  imports Main
begin

section \<open>Python values used by hardware/component.py\<close>

text \<open>
  Exceptions are values. The classes listed are the ones the module or the built-ins it
  calls can raise; \<open>UserException n\<close> stands for any exception class derived from
  \<open>Exception\<close> that a callback raises. \<open>SystemExit\<close>, \<open>KeyboardInterrupt\<close> and
  \<open>GeneratorExit\<close> derive from \<open>BaseException\<close> only, so \<open>except Exception\<close> does not
  catch them.
\<close>

datatype error =
    FileNotFoundError | FileExistsError | IsADirectoryError
  | AttributeError | IndexError | KeyError | TypeError | ValueError
  | UnicodeDecodeError | UnicodeEncodeError | RuntimeError
  | UserException nat
  | SystemExit | KeyboardInterrupt | GeneratorExit

fun is_Exception :: "error \<Rightarrow> bool" where
  "is_Exception SystemExit = False"
| "is_Exception KeyboardInterrupt = False"
| "is_Exception GeneratorExit = False"
| "is_Exception _ = True"

text \<open>
  A \<open>bytes\<close> object is a list of 8-bit characters; a \<open>str\<close> is a list of Unicode code
  points. \<open>ascii\<close> writes a \<open>str\<close> literal.
\<close>

type_synonym bytes = "char list"
type_synonym pystr = "nat list"

definition ascii :: "string \<Rightarrow> pystr" where
  "ascii s = map of_char s"

definition LF :: char where
  "LF = CHR 0x0A"

definition comma :: nat where
  "comma = 44"

subsection \<open>\<open>str.encode()\<close> and \<open>bytes.decode()\<close>: strict UTF-8\<close>

definition byte :: "nat \<Rightarrow> char" where
  "byte n = char_of n"

fun encode_cp :: "nat \<Rightarrow> bytes option" where
  "encode_cp cp =
     (if cp < 0x80 then Some [byte cp]
      else if cp < 0x800 then Some [byte (0xC0 + cp div 64), byte (0x80 + cp mod 64)]
      else if 0xD800 \<le> cp \<and> cp \<le> 0xDFFF then None
      else if cp < 0x10000 then
        Some [byte (0xE0 + cp div 4096), byte (0x80 + (cp div 64) mod 64), byte (0x80 + cp mod 64)]
      else if cp \<le> 0x10FFFF then
        Some [byte (0xF0 + cp div 262144), byte (0x80 + (cp div 4096) mod 64),
              byte (0x80 + (cp div 64) mod 64), byte (0x80 + cp mod 64)]
      else None)"

fun encode :: "pystr \<Rightarrow> error + bytes" where
  "encode [] = Inr []"
| "encode (cp # s) =
     (case encode_cp cp of
        None \<Rightarrow> Inl UnicodeEncodeError
      | Some bs \<Rightarrow> (case encode s of Inl e \<Rightarrow> Inl e | Inr r \<Rightarrow> Inr (bs @ r)))"

definition cont :: "nat \<Rightarrow> bool" where
  "cont b = (0x80 \<le> b \<and> b \<le> 0xBF)"

text \<open>
  \<open>decode_cp bs\<close> reads one well-formed UTF-8 sequence from the front of \<open>bs\<close> (given as
  byte values) and returns the code point and the number of bytes it took. Overlong forms,
  surrogates and values above U+10FFFF are rejected, as the strict decoder does.
\<close>

fun decode_cp :: "nat list \<Rightarrow> (nat \<times> nat) option" where
  "decode_cp [] = None"
| "decode_cp (b0 # r) =
     (if b0 < 0x80 then Some (b0, 1)
      else if 0xC2 \<le> b0 \<and> b0 \<le> 0xDF then
        (case r of
           b1 # _ \<Rightarrow> if cont b1 then Some ((b0 - 0xC0) * 64 + (b1 - 0x80), 2) else None
         | _ \<Rightarrow> None)
      else if 0xE0 \<le> b0 \<and> b0 \<le> 0xEF then
        (case r of
           b1 # b2 # _ \<Rightarrow>
             if cont b1 \<and> cont b2 \<and> (if b0 = 0xE0 then 0xA0 \<le> b1 else True)
                \<and> (if b0 = 0xED then b1 \<le> 0x9F else True)
             then Some ((b0 - 0xE0) * 4096 + (b1 - 0x80) * 64 + (b2 - 0x80), 3) else None
         | _ \<Rightarrow> None)
      else if 0xF0 \<le> b0 \<and> b0 \<le> 0xF4 then
        (case r of
           b1 # b2 # b3 # _ \<Rightarrow>
             if cont b1 \<and> cont b2 \<and> cont b3 \<and> (if b0 = 0xF0 then 0x90 \<le> b1 else True)
                \<and> (if b0 = 0xF4 then b1 \<le> 0x8F else True)
             then Some ((b0 - 0xF0) * 262144 + (b1 - 0x80) * 4096 + (b2 - 0x80) * 64
                        + (b3 - 0x80), 4)
             else None
         | _ \<Rightarrow> None)
      else None)"

fun decode_fuel :: "nat \<Rightarrow> nat list \<Rightarrow> error + pystr" where
  "decode_fuel 0 bs = (if bs = [] then Inr [] else Inl UnicodeDecodeError)"
| "decode_fuel (Suc n) bs =
     (if bs = [] then Inr []
      else case decode_cp bs of
             None \<Rightarrow> Inl UnicodeDecodeError
           | Some (cp, k) \<Rightarrow>
               (case decode_fuel n (drop k bs) of Inl e \<Rightarrow> Inl e | Inr s \<Rightarrow> Inr (cp # s)))"

text \<open>Every sequence takes at least one byte, so \<open>length bs\<close> steps always suffice.\<close>

definition decode :: "bytes \<Rightarrow> error + pystr" where
  "decode bs = decode_fuel (length bs) (map of_char bs)"

subsection \<open>\<open>str(int)\<close>, \<open>str.join\<close>, \<open>str.split\<close>, \<open>bytes.partition\<close>\<close>

fun nat_digits :: "nat \<Rightarrow> pystr" where
  "nat_digits n = (if n < 10 then [48 + n] else nat_digits (n div 10) @ [48 + n mod 10])"

declare nat_digits.simps [simp del]

definition str_int :: "int \<Rightarrow> pystr" where
  "str_int i = (if i < 0 then 45 # nat_digits (nat (- i)) else nat_digits (nat i))"

fun join :: "pystr \<Rightarrow> pystr list \<Rightarrow> pystr" where
  "join sep [] = []"
| "join sep [x] = x"
| "join sep (x # y # ys) = x @ sep @ join sep (y # ys)"

text \<open>\<open>split c s\<close> is \<open>s.split(c)\<close> for a one-character separator: never an empty list.\<close>

fun split :: "'a \<Rightarrow> 'a list \<Rightarrow> 'a list list" where
  "split c [] = [[]]"
| "split c (x # xs) =
     (if x = c then [] # split c xs
      else (case split c xs of f # fs \<Rightarrow> (x # f) # fs | [] \<Rightarrow> [[x]]))"

text \<open>\<open>partition c s\<close> is \<open>s.partition(c)\<close> without the separator component.\<close>

definition partition_at :: "'a \<Rightarrow> 'a list \<Rightarrow> 'a list \<times> 'a list" where
  "partition_at c s = (takeWhile (\<lambda>x. x \<noteq> c) s, drop 1 (dropWhile (\<lambda>x. x \<noteq> c) s))"

subsection \<open>Floating-point values: \<open>float(str)\<close> and \<open>str(float)\<close>\<close>

text \<open>
  A finite float is written by its sign, its significant decimal digits \<open>d1 \<dots> dn\<close> (no
  leading or trailing zero, or the single digit 0) and the position of the decimal point:
  \<open>Float neg ds p\<close> stands for the binary64 value nearest to \<open>\<plusminus> 0.d1\<dots>dn * 10^p\<close>. So 1.0
  is \<open>Float False [1] 1\<close> and 2.5 is \<open>Float False [2, 5] 1\<close>. The rounding to binary64 is
  not computed: two literals of more than 15 digits may denote one float and differ here.
\<close>

datatype pyfloat = Float bool "nat list" int | Infinity bool | NaN

definition is_digit :: "nat \<Rightarrow> bool" where
  "is_digit c = (48 \<le> c \<and> c \<le> 57)"

text \<open>
  The white space \<open>float\<close> strips: the ASCII characters of \<open>Py_ISSPACE\<close>, and the
  code points from 127 on that CPython first rewrites to a blank.
\<close>

definition is_space :: "nat \<Rightarrow> bool" where
  "is_space c = (c \<in> {9, 10, 11, 12, 13, 32, 0x85, 0xA0, 0x1680, 0x2028, 0x2029, 0x202F,
                        0x205F, 0x3000} \<or> (0x2000 \<le> c \<and> c \<le> 0x200A))"

definition strip :: "pystr \<Rightarrow> pystr" where
  "strip s = rev (dropWhile is_space (rev (dropWhile is_space s)))"

text \<open>An underscore is accepted only between two digits, and is then dropped.\<close>

fun underscores_ok :: "nat \<Rightarrow> pystr \<Rightarrow> bool" where
  "underscores_ok prev [] = (prev \<noteq> 95)"
| "underscores_ok prev (c # cs) =
     (if c = 95 then is_digit prev \<and> underscores_ok c cs
      else if prev = 95 then is_digit c \<and> underscores_ok c cs
      else underscores_ok c cs)"

definition to_lower :: "nat \<Rightarrow> nat" where
  "to_lower c = (if 65 \<le> c \<and> c \<le> 90 then c + 32 else c)"

definition digits_value :: "pystr \<Rightarrow> nat" where
  "digits_value ds = foldl (\<lambda>a d. 10 * a + (d - 48)) 0 ds"

definition normalise :: "bool \<Rightarrow> nat list \<Rightarrow> int \<Rightarrow> pyfloat" where
  "normalise neg ds p =
     (let lead = length (takeWhile (\<lambda>d. d = 0) ds);
          ds1 = dropWhile (\<lambda>d. d = 0) ds;
          ds2 = rev (dropWhile (\<lambda>d. d = 0) (rev ds1))
      in if ds2 = [] then Float neg [0] 1 else Float neg ds2 (p - int lead))"

text \<open>
  \<open>parse_exponent r\<close> reads what follows the mantissa: nothing, or \<open>e\<close>/\<open>E\<close>, an optional
  sign and at least one digit; anything left over makes the literal invalid.
\<close>

definition parse_exponent :: "pystr \<Rightarrow> int option" where
  "parse_exponent r =
     (case r of
        [] \<Rightarrow> Some 0
      | c # r1 \<Rightarrow>
          if c = 101 \<or> c = 69 then
            (let neg = (case r1 of s # _ \<Rightarrow> s = 45 | [] \<Rightarrow> False);
                 r2 = (case r1 of s # t \<Rightarrow> if s = 45 \<or> s = 43 then t else r1 | [] \<Rightarrow> r1)
             in if r2 \<noteq> [] \<and> list_all is_digit r2
                then Some (if neg then - int (digits_value r2) else int (digits_value r2))
                else None)
          else None)"

definition parse_number :: "bool \<Rightarrow> pystr \<Rightarrow> pyfloat option" where
  "parse_number neg s =
     (let ip = takeWhile is_digit s;
          r1 = dropWhile is_digit s;
          fp = (case r1 of c # t \<Rightarrow> if c = 46 then takeWhile is_digit t else [] | [] \<Rightarrow> []);
          r2 = (case r1 of c # t \<Rightarrow> if c = 46 then dropWhile is_digit t else r1 | [] \<Rightarrow> [])
      in if ip = [] \<and> fp = [] then None
         else (case parse_exponent r2 of
                 None \<Rightarrow> None
               | Some e \<Rightarrow> Some (normalise neg (map (\<lambda>c. c - 48) (ip @ fp)) (int (length ip) + e))))"

text \<open>
  \<open>py_float s\<close> is \<open>float(s)\<close> for a \<open>str\<close>. Code points above 126 other than white space
  make the literal invalid (CPython also accepts the non-ASCII decimal digits of the
  Unicode database, which are left out here).
\<close>

definition py_float :: "pystr \<Rightarrow> error + pyfloat" where
  "py_float s0 =
     (let s1 = map (\<lambda>c. if c < 127 then c else if is_space c then 32 else 63) s0 in
      if \<not> underscores_ok 0 s1 then Inl ValueError
      else
        (let s = strip (filter (\<lambda>c. c \<noteq> 95) s1);
             neg = (case s of c # _ \<Rightarrow> c = 45 | [] \<Rightarrow> False);
             body = (case s of c # t \<Rightarrow> if c = 45 \<or> c = 43 then t else s | [] \<Rightarrow> s);
             low = map to_lower body
         in if low = ascii ''inf'' \<or> low = ascii ''infinity'' then Inr (Infinity neg)
            else if low = ascii ''nan'' then Inr NaN
            else (case parse_number neg body of
                    None \<Rightarrow> Inl ValueError
                  | Some f \<Rightarrow> Inr f)))"

text \<open>\<open>float_str\<close> is \<open>repr\<close> of a float, which \<open>str\<close> uses: fixed notation when
  \<open>-4 < p \<le> 16\<close>, exponent notation otherwise.\<close>

definition exp_digits :: "nat \<Rightarrow> pystr" where
  "exp_digits n = (if n < 10 then 48 # nat_digits n else nat_digits n)"

fun float_str :: "pyfloat \<Rightarrow> pystr" where
  "float_str NaN = ascii ''nan''"
| "float_str (Infinity neg) = (if neg then ascii ''-inf'' else ascii ''inf'')"
| "float_str (Float neg ds p) =
     (let dc = map (\<lambda>d. 48 + d) ds; n = length ds;
          body =
            (if p \<le> - 4 \<or> 16 < p then
               take 1 dc @ (if 1 < n then 46 # drop 1 dc else []) @ [101]
               @ (if p - 1 < 0 then [45] else [43]) @ exp_digits (nat \<bar>p - 1\<bar>)
             else if p \<le> 0 then ascii ''0.'' @ replicate (nat (- p)) 48 @ dc
             else if n \<le> nat p then dc @ replicate (nat p - n) 48 @ ascii ''.0''
             else take (nat p) dc @ 46 # drop (nat p) dc)
      in if neg then 45 # body else body)"

subsection \<open>What a caller hands to \<open>writedata\<close>, and what \<open>readdata\<close> returns\<close>

datatype scalar = PyInt int | PyFloat pyfloat | PyStr pystr

text \<open>
  \<open>Iterable xs\<close> is a tuple, list or other iterable of scalars; \<open>PyBytes\<close> is a
  \<open>bytes\<close> object.
\<close>

datatype pydata = Scalar scalar | Iterable "scalar list" | PyBytes bytes

fun py_str :: "scalar \<Rightarrow> pystr" where
  "py_str (PyInt i) = str_int i"
| "py_str (PyFloat f) = float_str f"
| "py_str (PyStr s) = s"

text \<open>\<open>hasattr(data, "__iter__")\<close>: true of \<open>str\<close> and \<open>bytes\<close> too in Python 3.\<close>

fun has_iter :: "pydata \<Rightarrow> bool" where
  "has_iter (Scalar (PyStr s)) = True"
| "has_iter (Scalar _) = False"
| "has_iter (Iterable xs) = True"
| "has_iter (PyBytes b) = True"

text \<open>
  What \<open>for i in data\<close> yields: a \<open>str\<close> yields its characters, each a \<open>str\<close> of length
  one; a \<open>bytes\<close> object yields its bytes as integers.
\<close>

fun iter_items :: "pydata \<Rightarrow> scalar list" where
  "iter_items (Scalar (PyStr s)) = map (\<lambda>c. PyStr [c]) s"
| "iter_items (Scalar _) = []"
| "iter_items (Iterable xs) = xs"
| "iter_items (PyBytes b) = map (\<lambda>c. PyInt (of_char c)) b"

datatype rvalue = RFloat pyfloat | RTuple "pyfloat list"

section \<open>The operating system as the module sees it\<close>

text \<open>
  The file system maps a path to the node that lives there. \<open>os.unlink\<close> removes a file or
  a pipe, fails with \<open>FileNotFoundError\<close> on a missing path and with \<open>IsADirectoryError\<close> on
  a directory. \<open>os.mkfifo\<close> creates a pipe with mode \<open>0o666\<close> masked by the process's
  umask, and fails when the path is taken. Parent directories and permissions are not
  part of the model.
\<close>

datatype node = Fifo int | Regular | Directory

record os_state =
  nodes :: "pystr \<rightharpoonup> node"
  umask :: int

definition os_unlink :: "pystr \<Rightarrow> os_state \<Rightarrow> error + os_state" where
  "os_unlink p os =
     (case nodes os p of
        None \<Rightarrow> Inl FileNotFoundError
      | Some Directory \<Rightarrow> Inl IsADirectoryError
      | Some _ \<Rightarrow> Inr (os\<lparr>nodes := (nodes os)(p := None)\<rparr>))"

definition os_umask :: "int \<Rightarrow> os_state \<Rightarrow> int \<times> os_state" where
  "os_umask m os = (umask os, os\<lparr>umask := m\<rparr>)"

definition os_mkfifo :: "pystr \<Rightarrow> os_state \<Rightarrow> error + os_state" where
  "os_mkfifo p os =
     (case nodes os p of
        Some _ \<Rightarrow> Inl FileExistsError
      | None \<Rightarrow> Inr (os\<lparr>nodes := (nodes os)(p \<mapsto> Fifo (and 438 (not (umask os))))\<rparr>))"

text \<open>\<open>os.path.join(a, b)\<close> on POSIX, for two components.\<close>

definition path_join :: "pystr \<Rightarrow> pystr \<Rightarrow> pystr" where
  "path_join a b =
     (if b \<noteq> [] \<and> hd b = 47 then b
      else if a = [] \<or> last a = 47 then a @ b
      else a @ [47] @ b)"

text \<open>\<open>BASE_DIR = os.environ.get("IO_BASE_DIR", "/var/run/")\<close>\<close>

definition BASE_DIR :: "(pystr \<rightharpoonup> pystr) \<Rightarrow> pystr" where
  "BASE_DIR env = (case env (ascii ''IO_BASE_DIR'') of Some d \<Rightarrow> d | None \<Rightarrow> ascii ''/var/run/'')"

section \<open>\<open>FIFOFile\<close>\<close>

text \<open>
  A \<open>FIFOFile\<close> holds its path and its unbuffered file object, open on the pipe for reading
  and writing without blocking. \<open>pipe\<close> is what the pipe currently holds. A write is taken
  to find room in the pipe; \<open>read()\<close> with no size returns everything the pipe holds, or
  \<open>None\<close> when it holds nothing. Both raise \<open>ValueError\<close> on a closed file.
\<close>

record fifo =
  filename :: pystr
  fd_closed :: bool
  pipe :: bytes

definition FIFOFile_new :: "pystr \<Rightarrow> pystr \<Rightarrow> int \<Rightarrow> os_state \<Rightarrow> (error + fifo) \<times> os_state" where
  "FIFOFile_new base fn num os =
     (let name = path_join base (fn @ str_int num) in
      case (case os_unlink name os of
              Inl e \<Rightarrow> if e = FileNotFoundError then Inr os else Inl e
            | Inr os1 \<Rightarrow> Inr os1) of
        Inl e \<Rightarrow> (Inl e, os)
      | Inr os1 \<Rightarrow>
          (let (um, os2) = os_umask 0 os1 in
           case os_mkfifo name os2 of
             Inl e \<Rightarrow> (Inl e, os2)
           | Inr os3 \<Rightarrow>
               (Inr \<lparr>filename = name, fd_closed = False, pipe = []\<rparr>, snd (os_umask um os3))))"

definition FIFOFile_close :: "fifo \<Rightarrow> os_state \<Rightarrow> (error + unit) \<times> fifo \<times> os_state" where
  "FIFOFile_close f os =
     (let f1 = f\<lparr>fd_closed := True\<rparr> in
      case os_unlink (filename f) os of
        Inl e \<Rightarrow> if e = FileNotFoundError then (Inr (), f1, os) else (Inl e, f1, os)
      | Inr os1 \<Rightarrow> (Inr (), f1, os1))"

definition fifo_write :: "fifo \<Rightarrow> bytes \<Rightarrow> error + fifo" where
  "fifo_write f data = (if fd_closed f then Inl ValueError else Inr (f\<lparr>pipe := pipe f @ data\<rparr>))"

definition fifo_read :: "fifo \<Rightarrow> error + (bytes option \<times> fifo)" where
  "fifo_read f =
     (if fd_closed f then Inl ValueError
      else Inr (if pipe f = [] then None else Some (pipe f), f\<lparr>pipe := []\<rparr>))"

section \<open>\<open>Component\<close>\<close>

text \<open>
  \<open>fifos\<close> is \<open>None\<close> until \<open>init\<close> first assigns the attribute. \<open>readdata_buf\<close> is the
  \<open>defaultdict(bytes)\<close>: a missing key reads as the empty bytes object and is stored on
  that read.
\<close>

record component =
  fn :: pystr
  channels :: "int list"
  readdata_buf :: "int \<rightharpoonup> bytes"
  initialized :: bool
  fifos :: "fifo list option"

text \<open>\<open>fn\<close> is the argument if it is given and not empty, the class attribute \<open>_FN\<close>
  otherwise; \<open>range(offset, numchannels + offset)\<close> is the channel range.\<close>

definition Component_new :: "pystr option \<Rightarrow> pystr option \<Rightarrow> int \<Rightarrow> int \<Rightarrow> error + component" where
  "Component_new fn_arg FN numchannels offset =
     (case (case fn_arg of
              Some f \<Rightarrow> if f \<noteq> [] then Some f else FN
            | None \<Rightarrow> FN) of
        None \<Rightarrow> Inl AttributeError
      | Some name \<Rightarrow>
          Inr \<lparr>fn = name, channels = [offset..numchannels + offset - 1],
               readdata_buf = Map.empty, initialized = False, fifos = None\<rparr>)"

text \<open>Python list indexing: a negative index counts from the end.\<close>

definition py_index :: "'a list \<Rightarrow> int \<Rightarrow> nat option" where
  "py_index xs i =
     (let n = int (length xs); j = (if i < 0 then n + i else i)
      in if 0 \<le> j \<and> j < n then Some (nat j) else None)"

text \<open>
  Lines 53-54 of \<open>writedata\<close>. An integer or a float has no \<open>__iter__\<close> and is kept; a
  \<open>str\<close>, a \<open>bytes\<close> object and every other iterable are replaced by the comma-joined
  \<open>str\<close> of their items. The value is therefore never a \<open>bytes\<close> object at line 55, and
  line 56 always runs.
\<close>

fun join_data :: "pydata \<Rightarrow> scalar" where
  "join_data (Scalar (PyInt i)) = PyInt i"
| "join_data (Scalar (PyFloat f)) = PyFloat f"
| "join_data d = PyStr (join [comma] (map py_str (iter_items d)))"

definition serialize :: "pydata \<Rightarrow> error + bytes" where
  "serialize d = encode (py_str (join_data d))"

definition writedata :: "component \<Rightarrow> pydata \<Rightarrow> int \<Rightarrow> (error + unit) \<times> component" where
  "writedata c d channel =
     (case serialize d of
        Inl e \<Rightarrow> (Inl e, c)
      | Inr data \<Rightarrow>
          (case fifos c of
             None \<Rightarrow> (Inl AttributeError, c)
           | Some fs \<Rightarrow>
               (case py_index fs channel of
                  None \<Rightarrow> (Inl IndexError, c)
                | Some k \<Rightarrow>
                    (case fifo_write (fs ! k) (data @ [LF]) of
                       Inl e \<Rightarrow> (Inl e, c)
                     | Inr f \<Rightarrow> (Inr (), c\<lparr>fifos := Some (fs[k := f])\<rparr>)))))"

fun float_list :: "pystr list \<Rightarrow> error + pyfloat list" where
  "float_list [] = Inr []"
| "float_list (t # ts) =
     (case py_float t of
        Inl e \<Rightarrow> Inl e
      | Inr f \<Rightarrow> (case float_list ts of Inl e \<Rightarrow> Inl e | Inr fs \<Rightarrow> Inr (f # fs)))"

text \<open>Lines 65-69 of \<open>readdata\<close>: what is made of the line split off the buffer.\<close>

definition parse_line :: "bytes \<Rightarrow> error + rvalue" where
  "parse_line data =
     (case decode data of
        Inl e \<Rightarrow> Inl e
      | Inr text \<Rightarrow>
          if comma \<in> set text
          then (case float_list (split comma text) of Inl e \<Rightarrow> Inl e | Inr fs \<Rightarrow> Inr (RTuple fs))
          else (case py_float text of Inl e \<Rightarrow> Inl e | Inr f \<Rightarrow> Inr (RFloat f)))"

definition buf_get :: "(int \<rightharpoonup> bytes) \<Rightarrow> int \<Rightarrow> bytes" where
  "buf_get m k = (case m k of None \<Rightarrow> [] | Some b \<Rightarrow> b)"

definition readdata :: "component \<Rightarrow> int \<Rightarrow> (error + rvalue option) \<times> component" where
  "readdata c channel =
     (case fifos c of
        None \<Rightarrow> (Inl AttributeError, c)
      | Some fs \<Rightarrow>
          (case py_index fs channel of
             None \<Rightarrow> (Inl IndexError, c)
           | Some k \<Rightarrow>
               (case fifo_read (fs ! k) of
                  Inl e \<Rightarrow> (Inl e, c)
                | Inr (data, f) \<Rightarrow>
                    (let c1 = c\<lparr>fifos := Some (fs[k := f])\<rparr>;
                         b1 = (case data of
                                 None \<Rightarrow> readdata_buf c1
                               | Some d \<Rightarrow> (readdata_buf c1)(channel \<mapsto> buf_get (readdata_buf c1) channel @ d));
                         b2 = b1(channel \<mapsto> buf_get b1 channel);
                         buf = buf_get b2 channel
                     in if LF \<in> set buf
                        then (let (line, rest) = partition_at LF buf;
                                  c2 = c1\<lparr>readdata_buf := b2(channel \<mapsto> rest)\<rparr>
                              in (case parse_line line of
                                    Inl e \<Rightarrow> (Inl e, c2)
                                  | Inr v \<Rightarrow> (Inr (Some v), c2)))
                        else (Inr None, c1\<lparr>readdata_buf := b2\<rparr>)))))"

text \<open>\<open>_checkInit\<close>: with \<open>quiet\<close> it returns the flag; without, it raises or returns
  \<open>None\<close>.\<close>

definition checkInit :: "component \<Rightarrow> bool \<Rightarrow> error + bool option" where
  "checkInit c quiet =
     (if quiet then Inr (Some (initialized c))
      else if \<not> initialized c then Inl RuntimeError
      else Inr None)"

definition set_init :: "component \<Rightarrow> component" where
  "set_init c = c\<lparr>initialized := True\<rparr>"

text \<open>The loop of \<open>init\<close>: each new \<open>FIFOFile\<close> is appended to the list already assigned.\<close>

fun open_channels ::
  "pystr \<Rightarrow> pystr \<Rightarrow> int list \<Rightarrow> fifo list \<Rightarrow> os_state \<Rightarrow> (error + unit) \<times> fifo list \<times> os_state" where
  "open_channels base name [] acc os = (Inr (), acc, os)"
| "open_channels base name (i # is) acc os =
     (case FIFOFile_new base name i os of
        (Inl e, os1) \<Rightarrow> (Inl e, acc, os1)
      | (Inr f, os1) \<Rightarrow> open_channels base name is (acc @ [f]) os1)"

definition Component_init ::
  "pystr \<Rightarrow> component \<Rightarrow> os_state \<Rightarrow> (error + unit) \<times> component \<times> os_state" where
  "Component_init base c os =
     (if length (channels c) < 2 then
        (case FIFOFile_new base (fn c) 0 os of
           (Inl e, os1) \<Rightarrow> (Inl e, c, os1)
         | (Inr f, os1) \<Rightarrow> (Inr (), c\<lparr>fifos := Some [f]\<rparr>, os1))
      else
        (case open_channels base (fn c) (channels c) [] os of
           (r, fs, os1) \<Rightarrow> (r, c\<lparr>fifos := Some fs\<rparr>, os1)))"

fun close_all :: "fifo list \<Rightarrow> os_state \<Rightarrow> (error + unit) \<times> fifo list \<times> os_state" where
  "close_all [] os = (Inr (), [], os)"
| "close_all (f # fs) os =
     (case FIFOFile_close f os of
        (Inl e, f1, os1) \<Rightarrow> (Inl e, f1 # fs, os1)
      | (Inr u, f1, os1) \<Rightarrow>
          (case close_all fs os1 of (r, fs1, os2) \<Rightarrow> (r, f1 # fs1, os2)))"

definition Component_cleanup ::
  "component \<Rightarrow> os_state \<Rightarrow> (error + unit) \<times> component \<times> os_state" where
  "Component_cleanup c os =
     (case fifos c of
        None \<Rightarrow> (Inl AttributeError, c, os)
      | Some fs \<Rightarrow>
          (case close_all fs os of
             (Inl e, fs1, os1) \<Rightarrow> (Inl e, c\<lparr>fifos := Some fs1\<rparr>, os1)
           | (Inr u, fs1, os1) \<Rightarrow> (Inr (), c\<lparr>fifos := Some fs1, initialized := False\<rparr>, os1)))"

section \<open>\<open>EventedInput\<close>\<close>

text \<open>
  The handler table is a \<open>defaultdict(dict)\<close>: its keys are the string \<open>"generic"\<close> and pin
  identities (of a type \<open>'p\<close> that holds no such string), its values are dictionaries from
  handler id to callback, kept in insertion order. A callback is called with the pin; it
  acts on the rest of the program's state \<open>'w\<close> and either returns (\<open>None\<close>) or raises.
\<close>

datatype 'p key = Generic | Pin 'p

type_synonym ('p, 'w) callback = "'p \<Rightarrow> 'w \<Rightarrow> error option \<times> 'w"

record ('p, 'w) evented =
  next_id :: int
  handlers :: "'p key \<rightharpoonup> (int \<times> ('p, 'w) callback) list"

definition EventedInput_new :: "('p, 'w) evented" where
  "EventedInput_new = \<lparr>next_id = - 1, handlers = Map.empty\<rparr>"

text \<open>
  \<open>_get_handlers\<close> returns the dictionary stored under the key; the model returns the key
  and the table, in which a missing key has been given an empty dictionary.
\<close>

definition get_handlers ::
  "('p, 'w) evented \<Rightarrow> 'p option \<Rightarrow> bool \<Rightarrow> (error + 'p key) \<times> ('p, 'w) evented" where
  "get_handlers r pin generic =
     (case (if generic then Some Generic else map_option Pin pin) of
        None \<Rightarrow> (Inl TypeError, r)
      | Some k \<Rightarrow>
          (Inr k, case handlers r k of
                    None \<Rightarrow> r\<lparr>handlers := (handlers r)(k \<mapsto> [])\<rparr>
                  | Some d \<Rightarrow> r))"

definition handlers_of :: "('p, 'w) evented \<Rightarrow> 'p key \<Rightarrow> (int \<times> ('p, 'w) callback) list" where
  "handlers_of r k = (case handlers r k of None \<Rightarrow> [] | Some d \<Rightarrow> d)"

text \<open>\<open>d[k] = v\<close> and \<open>del d[k]\<close> on an insertion-ordered dictionary.\<close>

fun dict_set :: "('k \<times> 'v) list \<Rightarrow> 'k \<Rightarrow> 'v \<Rightarrow> ('k \<times> 'v) list" where
  "dict_set [] k v = [(k, v)]"
| "dict_set ((k1, v1) # d) k v = (if k1 = k then (k, v) # d else (k1, v1) # dict_set d k v)"

definition dict_del :: "('k \<times> 'v) list \<Rightarrow> 'k \<Rightarrow> error + ('k \<times> 'v) list" where
  "dict_del d k = (if k \<in> set (map fst d) then Inr (filter (\<lambda>kv. fst kv \<noteq> k) d) else Inl KeyError)"

definition add_handler ::
  "('p, 'w) evented \<Rightarrow> ('p, 'w) callback \<Rightarrow> 'p option \<Rightarrow> bool \<Rightarrow> (error + int) \<times> ('p, 'w) evented" where
  "add_handler r cb pin generic =
     (let r1 = r\<lparr>next_id := next_id r + 1\<rparr> in
      case get_handlers r1 pin generic of
        (Inl e, r2) \<Rightarrow> (Inl e, r2)
      | (Inr k, r2) \<Rightarrow>
          (Inr (next_id r2),
           r2\<lparr>handlers := (handlers r2)(k \<mapsto> dict_set (handlers_of r2 k) (next_id r2) cb)\<rparr>))"

definition remove_handler ::
  "('p, 'w) evented \<Rightarrow> int \<Rightarrow> 'p option \<Rightarrow> bool \<Rightarrow> (error + unit) \<times> ('p, 'w) evented" where
  "remove_handler r hid pin generic =
     (case get_handlers r pin generic of
        (Inl e, r1) \<Rightarrow> (Inl e, r1)
      | (Inr k, r1) \<Rightarrow>
          (case dict_del (handlers_of r1 k) hid of
             Inl e \<Rightarrow> (Inl e, r1)
           | Inr d \<Rightarrow> (Inr (), r1\<lparr>handlers := (handlers r1)(k \<mapsto> d)\<rparr>)))"

text \<open>
  The loop of \<open>_handle_pin\<close> over the list built beforehand. The result holds the exception
  that left the loop, if any, the state the callbacks produced, the ids of the handlers
  that were called, in order, and the exceptions handed to \<open>print_exc\<close>.
\<close>

record 'w dispatched =
  escaped :: "error option"
  world :: 'w
  called :: "int list"
  printed :: "error list"

fun dispatch :: "(int \<times> ('p, 'w) callback) list \<Rightarrow> 'p \<Rightarrow> 'w \<Rightarrow> 'w dispatched" where
  "dispatch [] p w = \<lparr>escaped = None, world = w, called = [], printed = []\<rparr>"
| "dispatch ((hid, cb) # hs) p w =
     (case cb p w of
        (None, w1) \<Rightarrow> (let d = dispatch hs p w1 in d\<lparr>called := hid # called d\<rparr>)
      | (Some e, w1) \<Rightarrow>
          if is_Exception e
          then (let d = dispatch hs p w1 in d\<lparr>called := hid # called d, printed := e # printed d\<rparr>)
          else \<lparr>escaped = Some e, world = w1, called = [hid], printed = []\<rparr>)"

definition handle_pin ::
  "('p, 'w) evented \<Rightarrow> 'p option \<Rightarrow> 'w \<Rightarrow> 'w dispatched \<times> ('p, 'w) evented" where
  "handle_pin r pin w =
     (case get_handlers r None True of
        (Inl e, r1) \<Rightarrow> (\<lparr>escaped = Some e, world = w, called = [], printed = []\<rparr>, r1)
      | (Inr g, r1) \<Rightarrow>
          (case get_handlers r1 pin False of
             (Inl e, r2) \<Rightarrow> (\<lparr>escaped = Some e, world = w, called = [], printed = []\<rparr>, r2)
           | (Inr k, r2) \<Rightarrow>
               (case pin of
                  None \<Rightarrow> (\<lparr>escaped = Some TypeError, world = w, called = [], printed = []\<rparr>, r2)
                | Some p \<Rightarrow> (dispatch (handlers_of r2 g @ handlers_of r2 k) p w, r2))))"

text \<open>A run of registry calls, for statements about every sequence of them.\<close>

datatype ('p, 'w) call =
    Add "('p, 'w) callback" "'p option" bool
  | Remove int "'p option" bool

fun run_calls :: "('p, 'w) evented \<Rightarrow> ('p, 'w) call list \<Rightarrow> (error + int) list \<times> ('p, 'w) evented" where
  "run_calls r [] = ([], r)"
| "run_calls r (Add cb pin generic # cs) =
     (case add_handler r cb pin generic of
        (res, r1) \<Rightarrow> (case run_calls r1 cs of (rs, r2) \<Rightarrow> (res # rs, r2)))"
| "run_calls r (Remove hid pin generic # cs) =
     (case remove_handler r hid pin generic of
        (res, r1) \<Rightarrow> run_calls r1 cs)"

text \<open>The ids that \<open>add_handler\<close> returned in a run, in order.\<close>

fun issued :: "(error + int) list \<Rightarrow> int list" where
  "issued [] = []"
| "issued (Inl e # rs) = issued rs"
| "issued (Inr i # rs) = i # issued rs"

section \<open>\<open>LoopedComponent\<close>\<close>

text \<open>
  A looped component is a \<open>Component\<close> with the \<open>started\<close> flag. The methods run on the
  caller's thread.
\<close>

record looped =
  component_part :: component
  started :: bool

definition Looped_start :: "looped \<Rightarrow> (error + unit) \<times> looped" where
  "Looped_start l =
     (case checkInit (component_part l) False of
        Inl e \<Rightarrow> (Inl e, l)
      | Inr u \<Rightarrow> (Inr (), l\<lparr>started := True\<rparr>))"

definition Looped_stop :: "looped \<Rightarrow> looped" where
  "Looped_stop l = l\<lparr>started := False\<rparr>"

definition Looped_init ::
  "pystr \<Rightarrow> bool \<Rightarrow> looped \<Rightarrow> os_state \<Rightarrow> (error + unit) \<times> looped \<times> os_state" where
  "Looped_init base autostart l os =
     (case Component_init base (component_part l) os of
        (Inl e, c1, os1) \<Rightarrow> (Inl e, l\<lparr>component_part := c1\<rparr>, os1)
      | (Inr u, c1, os1) \<Rightarrow>
          (let l1 = l\<lparr>component_part := set_init c1\<rparr> in
           if autostart then (case Looped_start l1 of (r, l2) \<Rightarrow> (r, l2, os1))
           else (Inr (), l1, os1)))"

definition Looped_cleanup :: "looped \<Rightarrow> os_state \<Rightarrow> (error + unit) \<times> looped \<times> os_state" where
  "Looped_cleanup l os =
     (let l1 = (if started l then Looped_stop l else l) in
      case Component_cleanup (component_part l1) os of
        (r, c1, os1) \<Rightarrow> (r, l1\<lparr>component_part := c1\<rparr>, os1))"

text \<open>
  The background thread runs \<open>runloop\<close>: it tests \<open>started\<close>, calls \<open>tick\<close> if the test
  succeeded, waits, and starts over. Nothing synchronises it with the caller's thread, so
  the caller's calls may fall between any two of its steps; \<open>pc\<close> is where the thread
  stands. An exception out of \<open>tick\<close> ends the thread. \<open>ticks\<close> counts the calls of \<open>tick\<close>.
\<close>

datatype loop_pc = AtTest | AtTick | AtWait | Dead

record sys =
  obj :: looped
  sys_os :: os_state
  pc :: loop_pc
  ticks :: nat

type_synonym tick_fn = "looped \<Rightarrow> os_state \<Rightarrow> error option \<times> looped \<times> os_state"

definition loop_step :: "tick_fn \<Rightarrow> sys \<Rightarrow> sys" where
  "loop_step tick s =
     (case pc s of
        AtTest \<Rightarrow> s\<lparr>pc := (if started (obj s) then AtTick else AtWait)\<rparr>
      | AtTick \<Rightarrow>
          (case tick (obj s) (sys_os s) of
             (r, l1, os1) \<Rightarrow>
               s\<lparr>obj := l1, sys_os := os1, ticks := Suc (ticks s),
                 pc := (case r of None \<Rightarrow> AtWait | Some e \<Rightarrow> Dead)\<rparr>)
      | AtWait \<Rightarrow> s\<lparr>pc := AtTest\<rparr>
      | Dead \<Rightarrow> s)"

text \<open>One whole pass of the loop body with no call of the caller's in between.\<close>

definition loop_iteration :: "tick_fn \<Rightarrow> sys \<Rightarrow> sys" where
  "loop_iteration tick s = loop_step tick (loop_step tick (loop_step tick s))"

datatype event = CallInit bool | CallStart | CallStop | CallCleanup | LoopStep

definition LoopedComponent_new :: "component \<Rightarrow> os_state \<Rightarrow> sys" where
  "LoopedComponent_new c os0 = \<lparr>obj = \<lparr>component_part = c, started = False\<rparr>, sys_os = os0, pc = AtTest, ticks = 0\<rparr>"

fun step :: "pystr \<Rightarrow> tick_fn \<Rightarrow> event \<Rightarrow> sys \<Rightarrow> sys" where
  "step base tick (CallInit a) s =
     (case Looped_init base a (obj s) (sys_os s) of (r, l1, os1) \<Rightarrow> s\<lparr>obj := l1, sys_os := os1\<rparr>)"
| "step base tick CallStart s = s\<lparr>obj := snd (Looped_start (obj s))\<rparr>"
| "step base tick CallStop s = s\<lparr>obj := Looped_stop (obj s)\<rparr>"
| "step base tick CallCleanup s =
     (case Looped_cleanup (obj s) (sys_os s) of (r, l1, os1) \<Rightarrow> s\<lparr>obj := l1, sys_os := os1\<rparr>)"
| "step base tick LoopStep s = loop_step tick s"

fun run :: "pystr \<Rightarrow> tick_fn \<Rightarrow> event list \<Rightarrow> sys \<Rightarrow> sys" where
  "run base tick [] s = s"
| "run base tick (e # es) s = run base tick es (step base tick e s)"

section \<open>Byte streams read through \<open>readdata\<close>\<close>

text \<open>
  \<open>deliver c channel chunk\<close> is the other end of the pipe at work: \<open>chunk\<close> arrives in the
  pipe that \<open>channel\<close> indexes. \<open>read_calls c channel chunks\<close> calls \<open>readdata\<close> once after
  each chunk has arrived (an empty chunk is a call with no new data) and lists what the
  calls returned or raised.
\<close>

definition deliver :: "component \<Rightarrow> int \<Rightarrow> bytes \<Rightarrow> component" where
  "deliver c channel chunk =
     (case fifos c of
        None \<Rightarrow> c
      | Some fs \<Rightarrow>
          (case py_index fs channel of
             None \<Rightarrow> c
           | Some k \<Rightarrow> c\<lparr>fifos := Some (fs[k := (fs ! k)\<lparr>pipe := pipe (fs ! k) @ chunk\<rparr>])\<rparr>))"

fun read_calls ::
  "component \<Rightarrow> int \<Rightarrow> bytes list \<Rightarrow> (error + rvalue option) list \<times> component" where
  "read_calls c channel [] = ([], c)"
| "read_calls c channel (chunk # chunks) =
     (case readdata (deliver c channel chunk) channel of
        (r, c1) \<Rightarrow> (case read_calls c1 channel chunks of (rs, c2) \<Rightarrow> (r # rs, c2)))"

text \<open>The channel indexes an open pipe.\<close>

definition ready :: "component \<Rightarrow> int \<Rightarrow> bool" where
  "ready c channel =
     (case fifos c of
        None \<Rightarrow> False
      | Some fs \<Rightarrow> (case py_index fs channel of None \<Rightarrow> False | Some k \<Rightarrow> \<not> fd_closed (fs ! k)))"

text \<open>The bytes of the channel not yet handed out: its buffer, then what its pipe holds.\<close>

definition pending :: "component \<Rightarrow> int \<Rightarrow> bytes" where
  "pending c channel =
     buf_get (readdata_buf c) channel @
     (case fifos c of
        None \<Rightarrow> []
      | Some fs \<Rightarrow> (case py_index fs channel of None \<Rightarrow> [] | Some k \<Rightarrow> pipe (fs ! k)))"

text \<open>
  The messages of a byte stream: its line-feed-terminated lines, without the line feed,
  in order; and what follows the last line feed.
\<close>

fun complete_lines :: "bytes \<Rightarrow> bytes list" where
  "complete_lines [] = []"
| "complete_lines (x # xs) =
     (if x = LF then [] # complete_lines xs
      else (case complete_lines xs of [] \<Rightarrow> [] | l # ls \<Rightarrow> (x # l) # ls))"

definition unterminated :: "bytes \<Rightarrow> bytes" where
  "unterminated s = rev (takeWhile (\<lambda>x. x \<noteq> LF) (rev s))"

text \<open>What a call of \<open>readdata\<close> that hands out the line \<open>l\<close> returns or raises.\<close>

definition line_outcome :: "bytes \<Rightarrow> error + rvalue option" where
  "line_outcome l = (case parse_line l of Inl e \<Rightarrow> Inl e | Inr v \<Rightarrow> Inr (Some v))"

text \<open>
  What every registry reached by \<open>add_handler\<close> and \<open>remove_handler\<close> calls satisfies: each
  dictionary lists its handler ids in increasing order, none above the counter.
\<close>

definition registry_ok :: "('p, 'w) evented \<Rightarrow> bool" where
  "registry_ok r =
     (\<forall>k. sorted_wrt (<) (map fst (handlers_of r k))
          \<and> list_all (\<lambda>i. i \<le> next_id r) (map fst (handlers_of r k)))"


section \<open>A component to run the operations on\<close>

text \<open>
  \<open>led\<close> is \<open>Component("led")\<close> as constructed, \<open>os0\<close> an empty file system with umask
  \<open>0o022\<close>, and \<open>led_open\<close> is \<open>led\<close> after \<open>init()\<close> there, with \<open>IO_BASE_DIR\<close> not set.
\<close>

definition led :: component where
  "led = \<lparr>fn = ascii ''led'', channels = [0], readdata_buf = Map.empty, initialized = False,
          fifos = None\<rparr>"

definition os0 :: os_state where
  "os0 = \<lparr>nodes = Map.empty, umask = 18\<rparr>"

definition led_open :: component where
  "led_open =
     led\<lparr>fifos := Some [\<lparr>filename = ascii ''/var/run/led0'', fd_closed = False, pipe = []\<rparr>]\<rparr>"

text \<open>\<open>led2\<close> is \<open>Component("led", numchannels=2, offset=5)\<close> as constructed.\<close>

definition led2 :: component where
  "led2 = \<lparr>fn = ascii ''led'', channels = [5, 6], readdata_buf = Map.empty, initialized = False,
          fifos = None\<rparr>"

section \<open>Pipe nodes\<close>

lemma FIFOFile_new_ok:
  assumes "nodes os (path_join base (name @ str_int num)) \<noteq> Some Directory"
  shows "FIFOFile_new base name num os =
    (Inr \<lparr>filename = path_join base (name @ str_int num), fd_closed = False, pipe = []\<rparr>,
     os\<lparr>nodes := (nodes os)(path_join base (name @ str_int num) \<mapsto> Fifo 438)\<rparr>)"
  using assms
  by (auto simp: FIFOFile_new_def os_unlink_def os_umask_def os_mkfifo_def Let_def
           split: option.splits node.splits)

lemma FIFOFile_new_dir:
  assumes "nodes os (path_join base (name @ str_int num)) = Some Directory"
  shows "FIFOFile_new base name num os = (Inl IsADirectoryError, os)"
  using assms
  by (simp add: FIFOFile_new_def os_unlink_def Let_def)

lemma FIFOFile_close_ok:
  assumes "nodes os (filename f) \<noteq> Some Directory"
  shows "FIFOFile_close f os =
    (Inr (), f\<lparr>fd_closed := True\<rparr>, os\<lparr>nodes := (nodes os)(filename f := None)\<rparr>)"
  using assms
  by (auto simp: FIFOFile_close_def os_unlink_def Let_def fun_upd_idem
           split: option.splits node.splits)

lemma FIFOFile_close_missing:
  assumes "nodes os (filename f) = None"
  shows "FIFOFile_close f os = (Inr (), f\<lparr>fd_closed := True\<rparr>, os)"
  using assms
  by (simp add: FIFOFile_close_def os_unlink_def Let_def)

lemma led0: "path_join (ascii ''/var/run/'') (ascii ''led'' @ str_int 0) = ascii ''/var/run/led0''"
  by (simp add: path_join_def ascii_def str_int_def nat_digits.simps)

text \<open>
  Claim C9. Opening a pipe channel removes whatever file or pipe node stands at the
  computed path and creates the pipe there; closing closes the handle and removes the
  node; in both, a path with no node is not an error: the open creates the pipe all the
  same, and the close leaves the file system as it is. (A directory at the path is not
  a stale node: \<open>os.unlink\<close> refuses it with an error other than not-found, which is
  raised.)
\<close>

theorem FIFOFile_node_management:
  "(nodes os (path_join base (name @ str_int num)) \<noteq> Some Directory \<longrightarrow>
      FIFOFile_new base name num os =
        (Inr \<lparr>filename = path_join base (name @ str_int num), fd_closed = False, pipe = []\<rparr>,
         os\<lparr>nodes := (nodes os)(path_join base (name @ str_int num) \<mapsto> Fifo 438)\<rparr>))
   \<and> (nodes os (filename f) \<noteq> Some Directory \<longrightarrow>
      FIFOFile_close f os =
        (Inr (), f\<lparr>fd_closed := True\<rparr>, os\<lparr>nodes := (nodes os)(filename f := None)\<rparr>))
   \<and> (nodes os (filename f) = None \<longrightarrow>
      FIFOFile_close f os = (Inr (), f\<lparr>fd_closed := True\<rparr>, os))"
  using FIFOFile_new_ok FIFOFile_close_ok FIFOFile_close_missing by blast

theorem FIFOFile_node_management_witness:
  "FIFOFile_new (ascii ''/var/run/'') (ascii ''led'') 0 \<lparr>nodes = Map.empty, umask = 18\<rparr> =
     (Inr \<lparr>filename = ascii ''/var/run/led0'', fd_closed = False, pipe = []\<rparr>,
      \<lparr>nodes = [ascii ''/var/run/led0'' \<mapsto> Fifo 438], umask = 18\<rparr>)
   \<and> FIFOFile_close \<lparr>filename = ascii ''/var/run/led0'', fd_closed = False, pipe = []\<rparr>
        \<lparr>nodes = [ascii ''/var/run/led0'' \<mapsto> Fifo 438], umask = 18\<rparr> =
     (Inr (), \<lparr>filename = ascii ''/var/run/led0'', fd_closed = True, pipe = []\<rparr>,
      \<lparr>nodes = Map.empty, umask = 18\<rparr>)
   \<and> FIFOFile_close \<lparr>filename = ascii ''/var/run/led0'', fd_closed = True, pipe = []\<rparr>
        \<lparr>nodes = Map.empty, umask = 18\<rparr> =
     (Inr (), \<lparr>filename = ascii ''/var/run/led0'', fd_closed = True, pipe = []\<rparr>,
      \<lparr>nodes = Map.empty, umask = 18\<rparr>)
   \<and> FIFOFile_new (ascii ''/var/run/'') (ascii ''led'') 0
        \<lparr>nodes = [ascii ''/var/run/led0'' \<mapsto> Regular], umask = 18\<rparr> =
     (Inr \<lparr>filename = ascii ''/var/run/led0'', fd_closed = False, pipe = []\<rparr>,
      \<lparr>nodes = [ascii ''/var/run/led0'' \<mapsto> Fifo 438], umask = 18\<rparr>)"
  using FIFOFile_node_management
          [of "\<lparr>nodes = Map.empty, umask = 18\<rparr>" "ascii ''/var/run/''" "ascii ''led''" 0
              "\<lparr>filename = ascii ''/var/run/led0'', fd_closed = True, pipe = []\<rparr>"]
        FIFOFile_node_management
          [of "\<lparr>nodes = [ascii ''/var/run/led0'' \<mapsto> Regular], umask = 18\<rparr>"
              "ascii ''/var/run/''" "ascii ''led''" 0
              "\<lparr>filename = ascii ''/var/run/led0'', fd_closed = True, pipe = []\<rparr>"]
        FIFOFile_node_management
          [of "\<lparr>nodes = [ascii ''/var/run/led0'' \<mapsto> Fifo 438], umask = 18\<rparr>"
              "ascii ''/var/run/''" "ascii ''led''" 0
              "\<lparr>filename = ascii ''/var/run/led0'', fd_closed = False, pipe = []\<rparr>"]
  by (simp add: led0)

section \<open>The component \<open>led\<close>\<close>

lemma led_new: "Component_new (Some (ascii ''led'')) None 1 0 = Inr led"
  by (simp add: Component_new_def led_def ascii_def)

lemma led_init: "Component_init (BASE_DIR Map.empty) led os0 =
   (Inr (), led_open, \<lparr>nodes = [ascii ''/var/run/led0'' \<mapsto> Fifo 438], umask = 18\<rparr>)"
proof -
  have "nodes os0 (path_join (ascii ''/var/run/'') (ascii ''led'' @ str_int 0)) \<noteq> Some Directory"
    by (simp add: os0_def)
  from FIFOFile_new_ok [OF this] show ?thesis
    by (simp add: Component_init_def BASE_DIR_def led_def led_open_def led0 os0_def)
qed

lemma ready_led_open: "ready led_open 0"
  by (simp add: ready_def led_open_def led_def py_index_def)

lemma pending_led_open: "pending led_open 0 = []"
  by (simp add: pending_def led_open_def led_def py_index_def buf_get_def)

section \<open>Reading lines: \<open>readdata\<close>\<close>

lemma py_index_less: "py_index xs i = Some k \<Longrightarrow> k < length xs"
  by (auto simp: py_index_def Let_def split: if_splits)

lemma py_index_update [simp]: "py_index (xs[k := x]) i = py_index xs i"
  by (simp add: py_index_def)

lemma readdata_open:
  assumes "fifos c = Some fs" "py_index fs ch = Some k" "\<not> fd_closed (fs ! k)"
  shows "readdata c ch =
     (let P = buf_get (readdata_buf c) ch @ pipe (fs ! k);
          c1 = c\<lparr>fifos := Some (fs[k := (fs ! k)\<lparr>pipe := []\<rparr>])\<rparr>
      in if LF \<in> set P
         then (line_outcome (takeWhile (\<lambda>x. x \<noteq> LF) P),
               c1\<lparr>readdata_buf := (readdata_buf c)(ch \<mapsto> drop 1 (dropWhile (\<lambda>x. x \<noteq> LF) P))\<rparr>)
         else (Inr None, c1\<lparr>readdata_buf := (readdata_buf c)(ch \<mapsto> P)\<rparr>))"
proof (cases "pipe (fs ! k) = []")
  case True
  with assms show ?thesis
    by (auto simp: readdata_def fifo_read_def buf_get_def partition_at_def line_outcome_def Let_def
             split: option.splits sum.splits)
next
  case False
  with assms show ?thesis
    by (auto simp: readdata_def fifo_read_def buf_get_def partition_at_def line_outcome_def Let_def
             split: option.splits sum.splits)
qed

lemma ready_D:
  "ready c ch \<Longrightarrow> \<exists>fs k. fifos c = Some fs \<and> py_index fs ch = Some k \<and> \<not> fd_closed (fs ! k)"
  by (auto simp: ready_def split: option.splits)

lemma pending_explicit:
  assumes "py_index fs ch = Some k"
  shows "pending (c\<lparr>fifos := Some (fs[k := (fs ! k)\<lparr>pipe := []\<rparr>]), readdata_buf := (readdata_buf c)(ch \<mapsto> B)\<rparr>) ch = B"
  using assms py_index_less [OF assms] by (simp add: pending_def buf_get_def)

lemma ready_explicit:
  assumes "py_index fs ch = Some k" "\<not> fd_closed (fs ! k)"
  shows "ready (c\<lparr>fifos := Some (fs[k := (fs ! k)\<lparr>pipe := []\<rparr>]), readdata_buf := m\<rparr>) ch"
  using assms py_index_less [OF assms(1)] by (simp add: ready_def)

lemma readdata_pending:
  assumes "ready c ch" "readdata c ch = (r, c')"
  shows "ready c' ch \<and>
    (if LF \<in> set (pending c ch)
     then r = line_outcome (takeWhile (\<lambda>x. x \<noteq> LF) (pending c ch)) \<and>
          pending c' ch = drop 1 (dropWhile (\<lambda>x. x \<noteq> LF) (pending c ch))
     else r = Inr None \<and> pending c' ch = pending c ch)"
proof -
  from ready_D [OF assms(1)] obtain fs k where
    h: "fifos c = Some fs" "py_index fs ch = Some k" "\<not> fd_closed (fs ! k)" by blast
  have P: "buf_get (readdata_buf c) ch @ pipe (fs ! k) = pending c ch"
    using h by (simp add: pending_def)
  show ?thesis
  proof (cases "LF \<in> set (pending c ch)")
    case True
    with assms(2) show ?thesis
      unfolding readdata_open [OF h] Let_def P
      using pending_explicit [OF h(2)] ready_explicit [OF h(2,3)] by auto
  next
    case False
    with assms(2) show ?thesis
      unfolding readdata_open [OF h] Let_def P
      using pending_explicit [OF h(2)] ready_explicit [OF h(2,3)] by auto
  qed
qed

lemma deliver_pending:
  assumes "ready c ch"
  shows "ready (deliver c ch x) ch \<and> pending (deliver c ch x) ch = pending c ch @ x"
proof -
  from ready_D [OF assms] obtain fs k where
    h: "fifos c = Some fs" "py_index fs ch = Some k" "\<not> fd_closed (fs ! k)" by blast
  have k: "k < length fs" using h(2) by (rule py_index_less)
  show ?thesis using h k by (simp add: deliver_def ready_def pending_def)
qed

lemma first_line_split:
  assumes "LF \<in> set s"
  obtains a b where "s = a @ LF # b" "LF \<notin> set a"
    "takeWhile (\<lambda>x. x \<noteq> LF) s = a" "drop 1 (dropWhile (\<lambda>x. x \<noteq> LF) s) = b"
proof -
  from split_list_first [OF assms] obtain a b where ab: "s = a @ LF # b" "LF \<notin> set a" by blast
  have p: "\<And>x. x \<in> set a \<Longrightarrow> x \<noteq> LF" using ab(2) by blast
  have "takeWhile (\<lambda>x. x \<noteq> LF) s = a" "drop 1 (dropWhile (\<lambda>x. x \<noteq> LF) s) = b"
    using p by (simp_all add: ab(1) takeWhile_append2 dropWhile_append2)
  with ab show ?thesis using that by blast
qed

lemma complete_lines_none: "LF \<notin> set s \<Longrightarrow> complete_lines s = []"
  by (induction s) auto

lemma complete_lines_cons: "LF \<notin> set a \<Longrightarrow> complete_lines (a @ LF # b) = a # complete_lines b"
  by (induction a) auto

lemma complete_lines_first_append:
  assumes "LF \<in> set s"
  shows "complete_lines (s @ t) =
    takeWhile (\<lambda>x. x \<noteq> LF) s # complete_lines (drop 1 (dropWhile (\<lambda>x. x \<noteq> LF) s) @ t)"
proof -
  from assms obtain a b where ab: "s = a @ LF # b" "LF \<notin> set a"
    "takeWhile (\<lambda>x. x \<noteq> LF) s = a" "drop 1 (dropWhile (\<lambda>x. x \<noteq> LF) s) = b"
    by (rule first_line_split)
  have "complete_lines (s @ t) = complete_lines (a @ LF # (b @ t))" by (simp add: ab(1))
  also have "\<dots> = a # complete_lines (b @ t)" using ab(2) by (rule complete_lines_cons)
  finally show ?thesis by (simp only: ab(3,4))
qed

lemma complete_lines_nil_iff: "complete_lines s = [] \<longleftrightarrow> LF \<notin> set s"
  using complete_lines_none complete_lines_first_append [of s "[]"] by auto

lemma takeWhile_upto_LF: "takeWhile (\<lambda>x. x \<noteq> LF) (xs @ LF # ys) = takeWhile (\<lambda>x. x \<noteq> LF) xs"
  by (induction xs) auto

lemma unterminated_cons: "unterminated (l @ LF # r) = unterminated r"
  by (simp add: unterminated_def takeWhile_upto_LF)

lemma unterminated_first_append:
  assumes "LF \<in> set s"
  shows "unterminated (drop 1 (dropWhile (\<lambda>x. x \<noteq> LF) s) @ t) = unterminated (s @ t)"
proof -
  from assms obtain a b where ab: "s = a @ LF # b" "LF \<notin> set a"
    "takeWhile (\<lambda>x. x \<noteq> LF) s = a" "drop 1 (dropWhile (\<lambda>x. x \<noteq> LF) s) = b"
    by (rule first_line_split)
  have "unterminated (s @ t) = unterminated (a @ LF # (b @ t))" by (simp add: ab(1))
  also have "\<dots> = unterminated (b @ t)" by (rule unterminated_cons)
  finally show ?thesis by (simp only: ab(4))
qed

lemma unterminated_none: "LF \<notin> set s \<Longrightarrow> unterminated s = s"
proof -
  assume a: "LF \<notin> set s"
  have tw: "takeWhile (\<lambda>x. x \<noteq> LF) (rev s) = rev s"
    by (rule takeWhile_eq_all_conv [THEN iffD2]) (use a in auto)
  show ?thesis unfolding unterminated_def tw by (rule rev_rev_ident)
qed

lemma line_outcome_not_None: "line_outcome l \<noteq> Inr None"
  by (simp add: line_outcome_def split: sum.splits)

lemma read_calls_inv:
  assumes "ready c ch" "read_calls c ch cs = (rs, c')"
  shows "ready c' ch \<and>
     filter (\<lambda>r. r \<noteq> Inr None) rs @ map line_outcome (complete_lines (pending c' ch)) =
       map line_outcome (complete_lines (pending c ch @ concat cs)) \<and>
     unterminated (pending c' ch) = unterminated (pending c ch @ concat cs)"
  using assms
proof (induction cs arbitrary: c rs)
  case Nil
  then show ?case by simp
next
  case (Cons x cs)
  obtain r c1 where r: "readdata (deliver c ch x) ch = (r, c1)" by (cases "readdata (deliver c ch x) ch")
  obtain rs1 c2 where rs0: "read_calls c1 ch cs = (rs1, c2)" by (cases "read_calls c1 ch cs")
  from Cons.prems(2) r rs0 have eq: "rs = r # rs1" "c2 = c'" by auto
  from rs0 eq have rs1: "read_calls c1 ch cs = (rs1, c')" by simp
  let ?P = "pending c ch @ x"
  from deliver_pending [OF Cons.prems(1), of x]
  have d: "ready (deliver c ch x) ch" "pending (deliver c ch x) ch = ?P" by auto
  from readdata_pending [OF d(1) r] d(2)
  have rd: "ready c1 ch"
    "if LF \<in> set ?P
     then r = line_outcome (takeWhile (\<lambda>x. x \<noteq> LF) ?P) \<and>
          pending c1 ch = drop 1 (dropWhile (\<lambda>x. x \<noteq> LF) ?P)
     else r = Inr None \<and> pending c1 ch = ?P" by auto
  from Cons.IH [OF rd(1) rs1] have ih:
    "ready c' ch"
    "filter (\<lambda>r. r \<noteq> Inr None) rs1 @ map line_outcome (complete_lines (pending c' ch)) =
       map line_outcome (complete_lines (pending c1 ch @ concat cs))"
    "unterminated (pending c' ch) = unterminated (pending c1 ch @ concat cs)" by auto
  show ?case
  proof (cases "LF \<in> set ?P")
    case True
    with rd(2) have r': "r = line_outcome (takeWhile (\<lambda>x. x \<noteq> LF) ?P)"
      and p: "pending c1 ch = drop 1 (dropWhile (\<lambda>x. x \<noteq> LF) ?P)" by auto
    have cl: "complete_lines (?P @ concat cs) =
      takeWhile (\<lambda>x. x \<noteq> LF) ?P # complete_lines (pending c1 ch @ concat cs)"
      using complete_lines_first_append [OF True, of "concat cs"] p by simp
    have un: "unterminated (pending c1 ch @ concat cs) = unterminated (?P @ concat cs)"
      unfolding p by (rule unterminated_first_append [OF True])
    show ?thesis using ih cl un r' eq line_outcome_not_None by simp
  next
    case False
    with rd(2) have "r = Inr None" "pending c1 ch = ?P" by auto
    then show ?thesis using ih eq by simp
  qed
qed
lemma read_calls_append:
  "read_calls c ch (xs @ ys) =
     (case read_calls c ch xs of (r1, c1) \<Rightarrow>
        (case read_calls c1 ch ys of (r2, c2) \<Rightarrow> (r1 @ r2, c2)))"
  by (induction xs arbitrary: c) (auto split: prod.splits)

lemma read_calls_idle:
  assumes "ready c ch" "LF \<notin> set (pending c ch)"
  shows "fst (read_calls c ch (replicate m [])) = replicate m (Inr None)"
  using assms
proof (induction m arbitrary: c)
  case 0
  then show ?case by simp
next
  case (Suc m)
  obtain r c1 where r: "readdata (deliver c ch []) ch = (r, c1)" by (cases "readdata (deliver c ch []) ch")
  from deliver_pending [OF Suc.prems(1), of "[]"]
  have d: "ready (deliver c ch []) ch" "pending (deliver c ch []) ch = pending c ch" by auto
  from readdata_pending [OF d(1) r] d(2) Suc.prems(2)
  have rd: "ready c1 ch" "r = Inr None" "pending c1 ch = pending c ch" by auto
  from Suc.IH [OF rd(1)] rd(3) Suc.prems(2)
  have "fst (read_calls c1 ch (replicate m [])) = replicate m (Inr None)" by simp
  then show ?case using r rd(2) by (auto split: prod.splits)
qed

lemma read_calls_drain:
  assumes "ready c ch" "length (complete_lines (pending c ch)) \<le> n"
    "read_calls c ch (replicate n []) = (rs, c')"
  shows "LF \<notin> set (pending c' ch)"
  using assms
proof (induction n arbitrary: c rs)
  case 0
  then show ?case by (simp add: complete_lines_nil_iff)
next
  case (Suc n)
  obtain r c1 where r: "readdata (deliver c ch []) ch = (r, c1)" by (cases "readdata (deliver c ch []) ch")
  obtain rs1 c2 where rs0: "read_calls c1 ch (replicate n []) = (rs1, c2)"
    by (cases "read_calls c1 ch (replicate n [])")
  from Suc.prems(3) r rs0 have "c2 = c'" by auto
  with rs0 have rs1: "read_calls c1 ch (replicate n []) = (rs1, c')" by simp
  from deliver_pending [OF Suc.prems(1), of "[]"]
  have d: "ready (deliver c ch []) ch" "pending (deliver c ch []) ch = pending c ch" by auto
  from readdata_pending [OF d(1) r] d(2)
  have rd: "ready c1 ch"
    "if LF \<in> set (pending c ch)
     then pending c1 ch = drop 1 (dropWhile (\<lambda>x. x \<noteq> LF) (pending c ch))
     else pending c1 ch = pending c ch" by auto
  have "length (complete_lines (pending c1 ch)) \<le> n"
  proof (cases "LF \<in> set (pending c ch)")
    case True
    with complete_lines_first_append [OF True, of "[]"] rd(2) Suc.prems(2) show ?thesis by simp
  next
    case False
    with rd(2) show ?thesis by (simp add: complete_lines_none)
  qed
  from Suc.IH [OF rd(1) this rs1] show ?case .
qed

lemma readdata_other_buf:
  assumes "ch' \<noteq> ch"
  shows "readdata_buf (snd (readdata c ch)) ch' = readdata_buf c ch'"
  using assms
  by (auto simp: readdata_def Let_def fifo_read_def partition_at_def
           split: option.splits sum.splits prod.splits)

lemma deliver_buf: "readdata_buf (deliver c ch x) = readdata_buf c"
  by (simp add: deliver_def split: option.splits)

lemma read_calls_other_buf:
  assumes "ch' \<noteq> ch"
  shows "readdata_buf (snd (read_calls c ch cs)) ch' = readdata_buf c ch'"
proof (induction cs arbitrary: c)
  case Nil
  show ?case by simp
next
  case (Cons x cs)
  obtain r c1 where r: "readdata (deliver c ch x) ch = (r, c1)" by (cases "readdata (deliver c ch x) ch")
  have "readdata_buf c1 ch' = readdata_buf c ch'"
    using readdata_other_buf [OF assms, of "deliver c ch x"] r by (simp add: deliver_buf)
  with Cons.IH [of c1] show ?case using r by (auto split: prod.splits)
qed

text \<open>
  Claim C1. A byte stream reaches \<open>readdata\<close> in chunks cut anywhere, one call after each
  chunk, followed by at least as many calls with no new data as the stream has complete
  lines. Then the calls that do not return \<open>None\<close> are, in order, exactly the outcomes of
  parsing the stream's line-feed-terminated lines, one call per line (\<open>k\<close> lines give \<open>k\<close>
  such calls); what follows the last line feed is still held for the channel, nothing of
  it lost or doubled; every further call with no new data returns \<open>None\<close>; the buffers of
  the other channels are untouched; and whenever the channel holds no complete line,
  calls with no new data return \<open>None\<close>, however many are made.
\<close>

theorem readdata_stream:
  assumes "ready c channel"
    and "length (complete_lines (pending c channel @ concat chunks)) \<le> n"
  shows
    "filter (\<lambda>r. r \<noteq> Inr None) (fst (read_calls c channel (chunks @ replicate n []))) =
       map line_outcome (complete_lines (pending c channel @ concat chunks))
     \<and> pending (snd (read_calls c channel (chunks @ replicate n []))) channel =
       unterminated (pending c channel @ concat chunks)
     \<and> fst (read_calls (snd (read_calls c channel (chunks @ replicate n []))) channel
              (replicate m [])) = replicate m (Inr None)
     \<and> (\<forall>other. other \<noteq> channel \<longrightarrow>
           readdata_buf (snd (read_calls c channel (chunks @ replicate n []))) other =
           readdata_buf c other)
     \<and> (LF \<notin> set (pending c channel) \<longrightarrow>
           fst (read_calls c channel (replicate m [])) = replicate m (Inr None))"
proof -
  obtain r1 c1 where r1: "read_calls c channel chunks = (r1, c1)" by (cases "read_calls c channel chunks")
  obtain r2 c2 where r2: "read_calls c1 channel (replicate n []) = (r2, c2)"
    by (cases "read_calls c1 channel (replicate n [])")
  have all: "read_calls c channel (chunks @ replicate n []) = (r1 @ r2, c2)"
    by (simp add: read_calls_append r1 r2)
  let ?S = "pending c channel @ concat chunks"
  from read_calls_inv [OF assms(1) r1] have i1: "ready c1 channel"
    "filter (\<lambda>r. r \<noteq> Inr None) r1 @ map line_outcome (complete_lines (pending c1 channel)) =
       map line_outcome (complete_lines ?S)"
    "unterminated (pending c1 channel) = unterminated ?S" by auto
  from arg_cong [OF i1(2), of length] assms(2)
  have len: "length (complete_lines (pending c1 channel)) \<le> n" by simp
  from read_calls_drain [OF i1(1) len r2] have no: "LF \<notin> set (pending c2 channel)" .
  from read_calls_inv [OF i1(1) r2] have i2: "ready c2 channel"
    "filter (\<lambda>r. r \<noteq> Inr None) r2 @ map line_outcome (complete_lines (pending c2 channel)) =
       map line_outcome (complete_lines (pending c1 channel @ concat (replicate n [])))"
    "unterminated (pending c2 channel) = unterminated (pending c1 channel @ concat (replicate n []))"
    by auto
  have cn: "concat (replicate n ([]::bytes)) = []" by (induction n) auto
  have a: "filter (\<lambda>r. r \<noteq> Inr None) (r1 @ r2) = map line_outcome (complete_lines ?S)"
    using i1(2) i2(2) no by (simp add: cn complete_lines_none)
  have b: "pending c2 channel = unterminated ?S"
    using i2(3) i1(3) unterminated_none [OF no] by (simp add: cn)
  have c: "fst (read_calls c2 channel (replicate m [])) = replicate m (Inr None)"
    by (rule read_calls_idle [OF i2(1) no])
  have d: "\<forall>other. other \<noteq> channel \<longrightarrow> readdata_buf c2 other = readdata_buf c other"
    using read_calls_other_buf [of _ channel c "chunks @ replicate n []"] by (simp add: all)
  have e: "LF \<notin> set (pending c channel) \<longrightarrow>
      fst (read_calls c channel (replicate m [])) = replicate m (Inr None)"
    using read_calls_idle [OF assms(1)] by blast
  show ?thesis using a b c d e by (simp add: all)
qed


lemma lo1: "line_outcome ''1.5'' = Inr (Some (RFloat (Float False [1, 5] 1)))"
  by (simp add: line_outcome_def parse_line_def decode_def comma_def py_float_def ascii_def strip_def
       is_space_def parse_number_def is_digit_def parse_exponent_def normalise_def to_lower_def)

lemma lo2: "line_outcome ''2,3'' = Inr (Some (RTuple [Float False [2] 1, Float False [3] 1]))"
  by (simp add: line_outcome_def parse_line_def decode_def comma_def py_float_def ascii_def strip_def
       is_space_def parse_number_def is_digit_def parse_exponent_def normalise_def to_lower_def)

lemma cl: "complete_lines (''1.5'' @ (LF # ''2,'') @ (''3'' @ LF # ''4'')) = [''1.5'', ''2,3'']"
  by (simp add: LF_def)

lemma un: "unterminated (''1.5'' @ (LF # ''2,'') @ (''3'' @ LF # ''4'')) = ''4''"
  by (simp add: LF_def unterminated_def)

theorem readdata_stream_witness:
  "ready led_open 0
   \<and> filter (\<lambda>r. r \<noteq> Inr None)
        (fst (read_calls led_open 0 ([''1.5'', LF # ''2,'', ''3'' @ LF # ''4''] @ replicate 2 []))) =
      [Inr (Some (RFloat (Float False [1, 5] 1))), Inr (Some (RTuple [Float False [2] 1, Float False [3] 1]))]
   \<and> pending (snd (read_calls led_open 0 ([''1.5'', LF # ''2,'', ''3'' @ LF # ''4''] @ replicate 2 []))) 0 = ''4''
   \<and> fst (read_calls (snd (read_calls led_open 0 ([''1.5'', LF # ''2,'', ''3'' @ LF # ''4''] @ replicate 2 [])))
        0 (replicate 3 [])) = replicate 3 (Inr None)"
proof -
  have h2: "length (complete_lines (pending led_open 0 @ concat [''1.5'', LF # ''2,'', ''3'' @ LF # ''4''])) \<le> 2"
    using cl by (simp add: pending_led_open)
  from readdata_stream [OF ready_led_open h2, of 3] cl un show ?thesis
    by (simp add: pending_led_open ready_led_open lo1 lo2)
qed


lemma py_float_error: "py_float t = Inl e \<Longrightarrow> e = ValueError"
  by (auto simp: py_float_def Let_def split: if_splits option.splits)

lemma float_list_error:
  assumes "t \<in> set ts" "py_float t = Inl e"
  shows "float_list ts = Inl ValueError"
  using assms
proof (induction ts)
  case Nil
  then show ?case by simp
next
  case (Cons a ts)
  show ?case
  proof (cases "py_float a")
    case (Inl e')
    then show ?thesis using py_float_error [OF Inl] by simp
  next
    case (Inr f)
    with Cons have "t \<in> set ts" by auto
    from Cons.IH [OF this Cons.prems(2)] Inr show ?thesis by simp
  qed
qed

lemma split_no_sep: "c \<notin> set s \<Longrightarrow> split c s = [s]"
  by (induction s) auto

lemma parse_line_invalid:
  assumes "decode l = Inr text" "t \<in> set (split comma text)" "py_float t = Inl e"
  shows "parse_line l = Inl ValueError"
proof (cases "comma \<in> set text")
  case True
  then show ?thesis using assms float_list_error [OF assms(2,3)] by (simp add: parse_line_def)
next
  case False
  with assms(2) have "t = text" by (simp add: split_no_sep)
  with assms(3) py_float_error [OF assms(3)] False assms(1) show ?thesis
    by (simp add: parse_line_def)
qed

text \<open>
  Claim C10. If the channel holds a complete line that decodes to a text in which some
  comma-separated field (the whole text when there is no comma) is not a floating-point
  literal, \<open>readdata\<close> raises \<open>ValueError\<close> with the line already split off: the buffer
  holds what followed the line feed, and the line is gone.
\<close>

theorem readdata_malformed_line:
  assumes "ready c channel"
    and "LF \<in> set (pending c channel)"
    and "decode (takeWhile (\<lambda>x. x \<noteq> LF) (pending c channel)) = Inr text"
    and "t \<in> set (split comma text)"
    and "py_float t = Inl e"
  shows "fst (readdata c channel) = Inl ValueError
     \<and> readdata_buf (snd (readdata c channel)) channel =
         Some (drop 1 (dropWhile (\<lambda>x. x \<noteq> LF) (pending c channel)))
     \<and> pending (snd (readdata c channel)) channel =
         drop 1 (dropWhile (\<lambda>x. x \<noteq> LF) (pending c channel))"
proof -
  from ready_D [OF assms(1)] obtain fs k where
    h: "fifos c = Some fs" "py_index fs channel = Some k" "\<not> fd_closed (fs ! k)" by blast
  have P: "buf_get (readdata_buf c) channel @ pipe (fs ! k) = pending c channel"
    using h by (simp add: pending_def)
  have lo: "line_outcome (takeWhile (\<lambda>x. x \<noteq> LF) (pending c channel)) = Inl ValueError"
    using parse_line_invalid [OF assms(3,4,5)] by (simp add: line_outcome_def)
  show ?thesis
    unfolding readdata_open [OF h] Let_def P
    using assms(2) lo pending_explicit [OF h(2)] by simp
qed

lemma led_deliver: "ready (deliver led_open 0 x) 0 \<and> pending (deliver led_open 0 x) 0 = x"
  using deliver_pending [OF ready_led_open, of x] by (simp add: pending_led_open)

theorem readdata_malformed_line_witness:
  "fst (readdata (deliver led_open 0 (''1,x,3'' @ LF # ''7'' @ [LF])) 0) = Inl ValueError
   \<and> readdata_buf (snd (readdata (deliver led_open 0 (''1,x,3'' @ LF # ''7'' @ [LF])) 0)) 0 = Some (''7'' @ [LF])
   \<and> pending (snd (readdata (deliver led_open 0 (''1,x,3'' @ LF # ''7'' @ [LF])) 0)) 0 = ''7'' @ [LF]"
proof -
  let ?c = "deliver led_open 0 (''1,x,3'' @ LF # ''7'' @ [LF])"
  have h1: "ready ?c 0" by (simp add: led_deliver)
  have h2: "LF \<in> set (pending ?c 0)" by (simp add: led_deliver)
  have h3: "decode (takeWhile (\<lambda>x. x \<noteq> LF) (pending ?c 0)) = Inr (ascii ''1,x,3'')"
    by (simp add: led_deliver LF_def decode_def ascii_def)
  have h4: "ascii ''x'' \<in> set (split comma (ascii ''1,x,3''))"
    by (simp add: ascii_def comma_def)
  have h5: "py_float (ascii ''x'') = Inl ValueError"
    by (simp add: py_float_def ascii_def strip_def is_space_def parse_number_def is_digit_def
          parse_exponent_def normalise_def to_lower_def)
  from readdata_malformed_line [OF h1 h2 h3 h4 h5] show ?thesis
    by (simp add: led_deliver LF_def)
qed

section \<open>Writing lines: \<open>writedata\<close>\<close>

lemma join_data_has_iter:
  "join_data d = (if has_iter d then PyStr (join [comma] (map py_str (iter_items d)))
                  else (case d of Scalar s \<Rightarrow> s | _ \<Rightarrow> PyStr []))"
  by (cases d rule: join_data.cases) simp_all

lemma has_iter_not_scalar: "\<not> has_iter d \<Longrightarrow> d = Scalar (join_data d)"
  by (cases d rule: join_data.cases) simp_all

lemma serialize_number:
  "serialize (Scalar (PyInt i)) = encode (str_int i)"
  "serialize (Scalar (PyFloat f)) = encode (float_str f)"
  "serialize (Iterable xs) = encode (join [comma] (map py_str xs))"
  "serialize (Scalar (PyStr s)) = encode (join [comma] (map (\<lambda>c. [c]) s))"
  by (simp_all add: serialize_def o_def)

lemma ser1: "serialize (Iterable [PyInt 1, PyFloat (Float False [2, 5] 1), PyInt 3]) = Inr ''1,2.5,3''"
  by code_simp
lemma ser2: "serialize (Scalar (PyInt 7)) = Inr ''7''"
  by code_simp
lemma ser3: "serialize (Scalar (PyStr (ascii ''hi''))) = Inr ''h,i''"
  by code_simp
lemma ser4: "serialize (PyBytes ''hi'') = Inr ''104,105''"
  by code_simp
lemma lo3: "line_outcome ''1,2.5,3'' = Inr (Some (RTuple [Float False [1] 1, Float False [2, 5] 1, Float False [3] 1]))"
  by (simp add: line_outcome_def parse_line_def decode_def comma_def py_float_def ascii_def strip_def
       is_space_def parse_number_def is_digit_def parse_exponent_def normalise_def to_lower_def)
lemma lo4: "line_outcome ''7'' = Inr (Some (RFloat (Float False [7] 1)))"
  by (simp add: line_outcome_def parse_line_def decode_def comma_def py_float_def ascii_def strip_def
       is_space_def parse_number_def is_digit_def parse_exponent_def normalise_def to_lower_def)

lemma takeWhile_line: "LF \<notin> set bs \<Longrightarrow> takeWhile (\<lambda>x. x \<noteq> LF) (bs @ [LF]) = bs"
  by (induction bs) auto


lemma writedata_ready:
  assumes "ready c ch" "serialize d = Inr bs"
  shows "fst (writedata c d ch) = Inr ()
    \<and> ready (snd (writedata c d ch)) ch
    \<and> pending (snd (writedata c d ch)) ch = pending c ch @ bs @ [LF]
    \<and> readdata_buf (snd (writedata c d ch)) = readdata_buf c"
proof -
  from ready_D [OF assms(1)] obtain fs k where
    h: "fifos c = Some fs" "py_index fs ch = Some k" "\<not> fd_closed (fs ! k)" by blast
  have k: "k < length fs" using h(2) by (rule py_index_less)
  show ?thesis using h k assms(2)
    by (simp add: writedata_def fifo_write_def ready_def pending_def)
qed

lemma roundtrip:
  assumes "ready c ch" "pending c ch = []" "serialize d = Inr bs" "LF \<notin> set bs"
  shows "fst (readdata (snd (writedata c d ch)) ch) = line_outcome bs"
proof -
  from writedata_ready [OF assms(1,3)] assms(2)
  have w: "ready (snd (writedata c d ch)) ch" "pending (snd (writedata c d ch)) ch = bs @ [LF]"
    by auto
  obtain r c' where r: "readdata (snd (writedata c d ch)) ch = (r, c')"
    by (cases "readdata (snd (writedata c d ch)) ch")
  have tw: "takeWhile (\<lambda>x. x \<noteq> LF) (bs @ [LF]) = bs"
    using assms(4) by (rule takeWhile_line)
  from readdata_pending [OF w(1) r] show ?thesis
    unfolding w(2) using tw r by simp
qed
lemma nat_digits_digits: "list_all is_digit (nat_digits n) \<and> nat_digits n \<noteq> []"
proof (induction n rule: nat_digits.induct)
  case (1 n)
  show ?case
  proof (cases "n < 10")
    case True
    then show ?thesis by (subst nat_digits.simps, subst nat_digits.simps) (simp add: is_digit_def)
  next
    case False
    have "n mod 10 < 10" by simp
    then have "is_digit (48 + n mod 10)" unfolding is_digit_def by linarith
    with 1 False show ?thesis
      by (subst nat_digits.simps, subst nat_digits.simps) simp
  qed
qed

lemma encode_ascii: "list_all (\<lambda>c. c < 128) s \<Longrightarrow> encode s = Inr (map byte s)"
  by (induction s) auto

lemma of_char_byte: "c < 128 \<Longrightarrow> of_char (byte c) = c"
  by (simp add: byte_def)

lemma decode_fuel_ascii:
  "list_all (\<lambda>c. c < 128) bs \<Longrightarrow> length bs \<le> n \<Longrightarrow> decode_fuel n bs = Inr bs"
proof (induction n arbitrary: bs)
  case 0
  then show ?case by simp
next
  case (Suc n)
  show ?case
  proof (cases bs)
    case Nil
    then show ?thesis by simp
  next
    case (Cons b r)
    with Suc.prems have "list_all (\<lambda>c. c < 128) r" "length r \<le> n" "b < 128" by auto
    with Suc.IH [of r] show ?thesis by (simp add: Cons)
  qed
qed

lemma decode_encode_ascii:
  assumes "list_all (\<lambda>c. c < 128) s"
  shows "decode (map byte s) = Inr s"
proof -
  have m: "map of_char (map byte s) = s"
    using assms by (induction s) (simp_all add: of_char_byte)
  show ?thesis unfolding decode_def m using decode_fuel_ascii [OF assms, of "length s"] by simp
qed
lemma str_int_shape:
  "\<exists>ds. list_all is_digit ds \<and> ds \<noteq> [] \<and> str_int i = (if i < 0 then 45 # ds else ds)"
  using nat_digits_digits by (auto simp: str_int_def)

lemma digit_facts:
  assumes "is_digit c"
  shows "c < 127" "c < 128" "c \<noteq> 95" "\<not> is_space c" "c \<noteq> 45" "c \<noteq> 43" "to_lower c = c" "c \<noteq> 44"
    "c \<noteq> 10" "c \<noteq> 105" "c \<noteq> 110"
  using assms by (auto simp: is_digit_def is_space_def to_lower_def)

lemma underscores_ok_none: "95 \<notin> set s \<Longrightarrow> prev \<noteq> 95 \<Longrightarrow> underscores_ok prev s"
  by (induction s arbitrary: prev) auto

lemma py_float_digits:
  assumes "list_all is_digit ds" "ds \<noteq> []"
  shows "py_float (if neg then 45 # ds else ds) =
           Inr (normalise neg (map (\<lambda>c. c - 48) ds) (int (length ds)))"
proof -
  let ?s = "if neg then 45 # ds else ds"
  have all: "\<And>c. c \<in> set ds \<Longrightarrow> is_digit c" using assms(1) by (simp add: list_all_iff)
  have m: "map (\<lambda>c. if c < 127 then c else if is_space c then 32 else 63) ?s = ?s"
    using all by (auto simp: map_idI digit_facts)
  have u: "underscores_ok 0 ?s"
    using all by (intro underscores_ok_none) (auto dest: digit_facts(3))
  have f: "filter (\<lambda>c. c \<noteq> 95) ?s = ?s"
    using all by (auto simp: filter_id_conv dest: digit_facts(3))
  obtain d r where dr: "ds = d # r" using assms(2) by (cases ds) auto
  have hd: "is_digit d" using all dr by simp
  have lst: "is_digit (last ds)" using all assms(2) by simp
  have sp45: "\<not> is_space 45" by (simp add: is_space_def)
  have st1: "dropWhile is_space ?s = ?s"
    using digit_facts(4) [OF hd] sp45 by (simp add: dr)
  have "dropWhile is_space (rev ?s) = rev ?s"
    using lst assms(2) by (cases "rev ds") (auto simp: digit_facts dest: arg_cong [where f = rev])
  with st1 have st: "strip ?s = ?s" by (simp add: strip_def)
  have low: "map to_lower ds = ds" using all by (simp add: map_idI digit_facts)
  have ni: "ds \<noteq> ascii ''inf''" "ds \<noteq> ascii ''infinity''" "ds \<noteq> ascii ''nan''"
    using hd by (auto simp: dr ascii_def dest: digit_facts)
  have tw: "takeWhile is_digit ds = ds" "dropWhile is_digit ds = []"
    using all by simp_all
  have pn: "parse_number neg ds = Some (normalise neg (map (\<lambda>c. c - 48) ds) (int (length ds)))"
    using assms(2) by (simp add: parse_number_def tw parse_exponent_def)
  show ?thesis
    unfolding py_float_def m Let_def f st
    using u hd pn low ni by (cases neg) (simp_all add: dr digit_facts)
qed
lemma str_int_digits:
  "str_int i = (if i < 0 then 45 # nat_digits (nat \<bar>i\<bar>) else nat_digits (nat \<bar>i\<bar>))"
  by (simp add: str_int_def)

lemma str_int_ascii: "list_all (\<lambda>c. c < 128) (str_int i)"
proof -
  have "\<And>c. c \<in> set (nat_digits (nat \<bar>i\<bar>)) \<Longrightarrow> c < 128"
    using nat_digits_digits [of "nat \<bar>i\<bar>"] by (auto simp: list_all_iff dest: digit_facts(2))
  then show ?thesis unfolding str_int_digits by (auto simp: list_all_iff)
qed

lemma str_int_plain: "10 \<notin> set (str_int i)" "comma \<notin> set (str_int i)"
proof -
  have d: "\<And>c. c \<in> set (nat_digits (nat \<bar>i\<bar>)) \<Longrightarrow> is_digit c"
    using nat_digits_digits [of "nat \<bar>i\<bar>"] by (auto simp: list_all_iff)
  show "10 \<notin> set (str_int i)" unfolding str_int_digits
    using d [of 10] by (auto simp: is_digit_def)
  show "comma \<notin> set (str_int i)" unfolding str_int_digits comma_def
    using d [of 44] by (auto simp: is_digit_def)
qed

lemma byte_LF: "c < 128 \<Longrightarrow> byte c = LF \<Longrightarrow> c = 10"
  using of_char_byte [of c] by (simp add: LF_def)

lemma line_outcome_int:
  "line_outcome (map byte (str_int i)) =
     Inr (Some (RFloat (normalise (i < 0) (map (\<lambda>c. c - 48) (nat_digits (nat \<bar>i\<bar>)))
                           (int (length (nat_digits (nat \<bar>i\<bar>)))))))"
proof -
  from nat_digits_digits [of "nat \<bar>i\<bar>"]
  have ds: "list_all is_digit (nat_digits (nat \<bar>i\<bar>))" "nat_digits (nat \<bar>i\<bar>) \<noteq> []" by auto
  have pf: "py_float (str_int i) =
     Inr (normalise (i < 0) (map (\<lambda>c. c - 48) (nat_digits (nat \<bar>i\<bar>)))
            (int (length (nat_digits (nat \<bar>i\<bar>)))))"
    unfolding str_int_digits by (rule py_float_digits [OF ds])
  show ?thesis
    by (simp add: line_outcome_def parse_line_def decode_encode_ascii [OF str_int_ascii]
          str_int_plain(2) pf)
qed

lemma int_roundtrip:
  assumes "ready c ch" "pending c ch = []"
  shows "fst (readdata (snd (writedata c (Scalar (PyInt i)) ch)) ch) =
     Inr (Some (RFloat (normalise (i < 0) (map (\<lambda>c. c - 48) (nat_digits (nat \<bar>i\<bar>)))
                           (int (length (nat_digits (nat \<bar>i\<bar>)))))))"
proof -
  have ser: "serialize (Scalar (PyInt i)) = Inr (map byte (str_int i))"
    by (simp add: serialize_def encode_ascii [OF str_int_ascii])
  have "\<And>c. c \<in> set (str_int i) \<Longrightarrow> c < 128"
    using str_int_ascii [of i] by (simp add: list_all_iff)
  then have nl: "LF \<notin> set (map byte (str_int i))"
    using str_int_plain(1) [of i] by (metis (no_types, lifting) byte_LF imageE list.set_map)
  from roundtrip [OF assms ser nl] show ?thesis by (simp add: line_outcome_int)
qed

text \<open>
  Claim C5. On a channel with an open pipe and nothing pending, \<open>writedata\<close> of the
  iterable \<open>(1, 2.5, 3)\<close> followed by \<open>readdata\<close> on the same channel yields the tuple
  \<open>(1.0, 2.5, 3.0)\<close>, and \<open>writedata\<close> of the integer 7 followed by \<open>readdata\<close> yields the
  float 7.0. Every integer is read back as the float with its decimal digits, and whatever
  is written as one line is read back as that line parsed into floats: what \<open>readdata\<close>
  returns is a float or a tuple of floats by its type.
\<close>

theorem writedata_readdata_roundtrip:
  assumes "ready c channel" and "pending c channel = []"
  shows "fst (writedata c (Iterable [PyInt 1, PyFloat (Float False [2, 5] 1), PyInt 3]) channel) = Inr ()
     \<and> fst (readdata (snd (writedata c (Iterable [PyInt 1, PyFloat (Float False [2, 5] 1), PyInt 3])
                              channel)) channel) =
         Inr (Some (RTuple [Float False [1] 1, Float False [2, 5] 1, Float False [3] 1]))
     \<and> fst (writedata c (Scalar (PyInt 7)) channel) = Inr ()
     \<and> fst (readdata (snd (writedata c (Scalar (PyInt 7)) channel)) channel) =
         Inr (Some (RFloat (Float False [7] 1)))
     \<and> fst (readdata (snd (writedata c (Scalar (PyInt i)) channel)) channel) =
         Inr (Some (RFloat (normalise (i < 0) (map (\<lambda>c. c - 48) (nat_digits (nat \<bar>i\<bar>)))
                               (int (length (nat_digits (nat \<bar>i\<bar>)))))))
     \<and> (serialize d = Inr bs \<and> LF \<notin> set bs \<longrightarrow>
           fst (readdata (snd (writedata c d channel)) channel) = line_outcome bs)"
proof -
  have n1: "LF \<notin> set ''1,2.5,3''" and n2: "LF \<notin> set ''7''" by (simp_all add: LF_def)
  have g: "serialize d = Inr bs \<and> LF \<notin> set bs \<longrightarrow>
      fst (readdata (snd (writedata c d channel)) channel) = line_outcome bs"
    using roundtrip [OF assms] by blast
  show ?thesis
    using writedata_ready [OF assms(1) ser1] writedata_ready [OF assms(1) ser2]
      roundtrip [OF assms ser1 n1] roundtrip [OF assms ser2 n2] int_roundtrip [OF assms, of i] g
    by (simp add: lo3 lo4)
qed

theorem writedata_readdata_roundtrip_witness:
  "ready led_open 0 \<and> pending led_open 0 = []
   \<and> fst (readdata (snd (writedata led_open (Iterable [PyInt 1, PyFloat (Float False [2, 5] 1), PyInt 3]) 0)) 0) =
       Inr (Some (RTuple [Float False [1] 1, Float False [2, 5] 1, Float False [3] 1]))
   \<and> fst (readdata (snd (writedata led_open (Scalar (PyInt 7)) 0)) 0) =
       Inr (Some (RFloat (Float False [7] 1)))"
  using writedata_readdata_roundtrip [OF ready_led_open pending_led_open, of 7 "Scalar (PyInt 7)" "''7''"]
  by (simp add: ready_led_open pending_led_open)

text \<open>
  Claim C2, at the input \<open>writedata("hi")\<close>. A \<open>str\<close> has \<open>__iter__\<close>, so line 54 joins its
  characters with commas, whatever the string: the pipe receives \<open>h,i\<close> and a line feed,
  not \<open>hi\<close> and a line feed.
\<close>

theorem writedata_str_scalar:
  "serialize (Scalar (PyStr s)) = encode (join [comma] (map (\<lambda>c. [c]) s))
   \<and> serialize (Scalar (PyStr (ascii ''hi''))) = Inr ''h,i''
   \<and> pending (snd (writedata led_open (Scalar (PyStr (ascii ''hi''))) 0)) 0 = ''h,i'' @ [LF]
   \<and> ''h,i'' @ [LF] \<noteq> ''hi'' @ [LF]"
  using writedata_ready [OF ready_led_open ser3] serialize_number(4) [of s]
  by (simp add: ser3 pending_led_open)

section \<open>Channel paths: \<open>init\<close>\<close>

lemma open_channels_ok:
  assumes "\<forall>i \<in> set is. nodes os (path_join base (name @ str_int i)) \<noteq> Some Directory"
  shows "\<exists>os'. open_channels base name is acc os =
           (Inr (), acc @ map (\<lambda>i. \<lparr>filename = path_join base (name @ str_int i),
                                    fd_closed = False, pipe = []\<rparr>) is, os')"
  using assms
proof (induction "is" arbitrary: acc os)
  case Nil
  then show ?case by simp
next
  case (Cons i "is")
  let ?p = "path_join base (name @ str_int i)"
  let ?os1 = "os\<lparr>nodes := (nodes os)(?p \<mapsto> Fifo 438)\<rparr>"
  from Cons.prems have "nodes os ?p \<noteq> Some Directory" by simp
  from FIFOFile_new_ok [OF this]
  have new: "FIFOFile_new base name i os = (Inr \<lparr>filename = ?p, fd_closed = False, pipe = []\<rparr>, ?os1)" .
  have "\<forall>j \<in> set is. nodes ?os1 (path_join base (name @ str_int j)) \<noteq> Some Directory"
    using Cons.prems by simp
  from Cons.IH [OF this, of "acc @ [\<lparr>filename = ?p, fd_closed = False, pipe = []\<rparr>]"]
  show ?case by (simp add: new)
qed

lemma str_int_0: "str_int 0 = ascii ''0''"
  by (simp add: str_int_def nat_digits.simps ascii_def)

text \<open>
  Claim C3, as amended. For a component constructed with fewer than two channels, \<open>init\<close>
  opens one pipe, at \<open>os.path.join(BASE_DIR, name + "0")\<close>: \<open>FIFOFile\<close> always appends its
  index, which defaults to 0, whatever the offset. For a component with two or more
  channels, \<open>init\<close> opens one pipe per channel \<open>i\<close> of \<open>range(offset, offset + numchannels)\<close>,
  at \<open>os.path.join(BASE_DIR, name + str(i))\<close>, in that order. (No directory stands at any of
  the paths.)
\<close>

theorem Component_init_paths:
  assumes "Component_new fn_arg FN numchannels offset = Inr c"
    and "\<forall>i. nodes os (path_join base (fn c @ str_int i)) \<noteq> Some Directory"
  shows "\<exists>fs os'. Component_init base c os = (Inr (), c\<lparr>fifos := Some fs\<rparr>, os')
     \<and> map filename fs =
         (if numchannels < 2 then [path_join base (fn c @ ascii ''0'')]
          else map (\<lambda>i. path_join base (fn c @ str_int i)) [offset..offset + numchannels - 1])
     \<and> list_all (\<lambda>f. \<not> fd_closed f) fs"
proof -
  from assms(1) have ch: "channels c = [offset..numchannels + offset - 1]"
    by (auto simp: Component_new_def split: option.splits if_splits)
  have len: "length (channels c) < 2 \<longleftrightarrow> numchannels < 2" by (auto simp: ch)
  show ?thesis
  proof (cases "numchannels < 2")
    case True
    let ?f = "\<lparr>filename = path_join base (fn c @ ascii ''0''), fd_closed = False, pipe = []\<rparr>"
    let ?os = "os\<lparr>nodes := (nodes os)(path_join base (fn c @ ascii ''0'') \<mapsto> Fifo 438)\<rparr>"
    from assms(2) have "nodes os (path_join base (fn c @ str_int 0)) \<noteq> Some Directory" by blast
    from FIFOFile_new_ok [OF this] True len
    have "Component_init base c os = (Inr (), c\<lparr>fifos := Some [?f]\<rparr>, ?os)"
      by (simp add: Component_init_def str_int_0)
    with True show ?thesis
      by (intro exI [of _ "[?f]"] exI [of _ ?os]) simp
  next
    case False
    let ?fs = "map (\<lambda>i. \<lparr>filename = path_join base (fn c @ str_int i), fd_closed = False, pipe = []\<rparr>)
                   (channels c)"
    from assms(2) have "\<forall>i \<in> set (channels c). nodes os (path_join base (fn c @ str_int i)) \<noteq> Some Directory"
      by blast
    from open_channels_ok [OF this, of "[]"] obtain os' where
      "open_channels base (fn c) (channels c) [] os = (Inr (), ?fs, os')" by auto
    with False len
    have "Component_init base c os = (Inr (), c\<lparr>fifos := Some ?fs\<rparr>, os')"
      by (simp add: Component_init_def)
    with False show ?thesis
      by (intro exI [of _ ?fs] exI [of _ os']) (simp add: ch o_def list_all_iff add.commute)
  qed
qed

lemma led2_new: "Component_new (Some (ascii ''led'')) None 2 5 = Inr led2"
  by (simp add: Component_new_def led2_def ascii_def upto.simps)

lemma led56: "path_join (BASE_DIR Map.empty) (ascii ''led'' @ str_int 5) = ascii ''/var/run/led5''"
  "path_join (BASE_DIR Map.empty) (ascii ''led'' @ str_int 6) = ascii ''/var/run/led6''"
  "path_join (BASE_DIR Map.empty) (ascii ''led'' @ ascii ''0'') = ascii ''/var/run/led0''"
  "path_join (BASE_DIR Map.empty) (ascii ''led'') = ascii ''/var/run/led''"
  by (simp_all add: path_join_def BASE_DIR_def ascii_def str_int_def nat_digits.simps)

theorem Component_init_paths_witness:
  "map_option (map filename) (fifos (fst (snd (Component_init (BASE_DIR Map.empty) led2 os0)))) =
     Some [ascii ''/var/run/led5'', ascii ''/var/run/led6'']
   \<and> map_option (map filename) (fifos (fst (snd (Component_init (BASE_DIR Map.empty) led os0)))) =
     Some [ascii ''/var/run/led0'']"
proof -
  have h: "\<forall>i. nodes os0 (path_join (BASE_DIR Map.empty) (fn led2 @ str_int i)) \<noteq> Some Directory"
    "\<forall>i. nodes os0 (path_join (BASE_DIR Map.empty) (fn led @ str_int i)) \<noteq> Some Directory"
    by (simp_all add: os0_def)
  from Component_init_paths [OF led2_new h(1)] Component_init_paths [OF led_new h(2)]
  show ?thesis
    by (auto simp: led2_def led_def led56 upto.simps)
qed

text \<open>
  Claim C3 as stated fails: the single channel of \<open>Component("led")\<close> is opened at
  \<open>/var/run/led0\<close>, not at \<open>/var/run/led\<close>.
\<close>

theorem single_channel_suffix_counterexample:
  "Component_new (Some (ascii ''led'')) None 1 0 = Inr led
   \<and> map_option (map filename) (fifos (fst (snd (Component_init (BASE_DIR Map.empty) led os0)))) =
       Some [ascii ''/var/run/led0'']
   \<and> ascii ''/var/run/led0'' \<noteq> path_join (BASE_DIR Map.empty) (ascii ''led'')"
proof -
  have "ascii ''/var/run/led0'' \<noteq> ascii ''/var/run/led''" by (simp add: ascii_def)
  then show ?thesis by (simp add: led_new led_init led_open_def led56)
qed

section \<open>The \<open>initialized\<close> flag\<close>

lemma FIFOFile_new_open: "FIFOFile_new base name i os = (Inr f, os') \<Longrightarrow> \<not> fd_closed f"
  by (auto simp: FIFOFile_new_def Let_def os_umask_def split: sum.splits if_splits)

lemma open_channels_open:
  assumes "open_channels base name is acc os = (r, fs, os')" "list_all (\<lambda>f. \<not> fd_closed f) acc"
  shows "list_all (\<lambda>f. \<not> fd_closed f) fs"
  using assms
proof (induction "is" arbitrary: acc os)
  case Nil
  then show ?case by simp
next
  case (Cons i "is")
  show ?case
  proof (cases "FIFOFile_new base name i os")
    case (Pair x os1)
    show ?thesis
    proof (cases x)
      case (Inl e)
      with Pair Cons.prems show ?thesis by simp
    next
      case (Inr f)
      with Pair FIFOFile_new_open have "\<not> fd_closed f" by blast
      with Cons.prems(2) have "list_all (\<lambda>f. \<not> fd_closed f) (acc @ [f])" by simp
      from Cons.IH [OF _ this] Cons.prems(1) Pair Inr show ?thesis by simp
    qed
  qed
qed

lemma Component_init_flag: "initialized (fst (snd (Component_init base c os))) = initialized c"
  by (simp add: Component_init_def split: prod.splits sum.splits)

lemma Component_init_open:
  assumes "Component_init base c os = (Inr (), c1, os1)"
  shows "\<exists>fs. fifos c1 = Some fs \<and> list_all (\<lambda>f. \<not> fd_closed f) fs"
proof (cases "length (channels c) < 2")
  case True
  with assms show ?thesis
    by (auto simp: Component_init_def split: prod.splits sum.splits dest: FIFOFile_new_open)
next
  case False
  obtain r fs os' where oc: "open_channels base (fn c) (channels c) [] os = (r, fs, os')"
    by (cases "open_channels base (fn c) (channels c) [] os") auto
  from open_channels_open [OF oc] have "list_all (\<lambda>f. \<not> fd_closed f) fs" by simp
  with assms False oc show ?thesis by (auto simp: Component_init_def)
qed

lemma FIFOFile_close_closed: "FIFOFile_close f os = (r, f1, os1) \<Longrightarrow> fd_closed f1"
  by (auto simp: FIFOFile_close_def Let_def split: sum.splits if_splits)

lemma close_all_closed:
  assumes "close_all fs os = (Inr (), fs', os')"
  shows "list_all fd_closed fs'"
  using assms
proof (induction fs arbitrary: os fs' os')
  case Nil
  then show ?case by simp
next
  case (Cons f fs)
  obtain r f1 os1 where c1: "FIFOFile_close f os = (r, f1, os1)"
    by (cases "FIFOFile_close f os") auto
  obtain r2 fs2 os2 where c2: "close_all fs os1 = (r2, fs2, os2)"
    by (cases "close_all fs os1") auto
  show ?case
  proof (cases r)
    case (Inl e)
    with Cons.prems c1 show ?thesis by simp
  next
    case (Inr u)
    with Cons.prems c1 c2 have e: "r2 = Inr ()" "fs' = f1 # fs2" by auto
    from Cons.IH [OF c2 [unfolded e(1)]] FIFOFile_close_closed [OF c1] e(2)
    show ?thesis by simp
  qed
qed

lemma Component_cleanup_closed:
  assumes "Component_cleanup c os = (Inr (), c2, os2)"
  shows "\<not> initialized c2 \<and> (\<exists>fs. fifos c2 = Some fs \<and> list_all fd_closed fs)"
  using assms
  by (auto simp: Component_cleanup_def split: option.splits prod.splits sum.splits dest: close_all_closed)

lemma Looped_init_ok:
  assumes "Looped_init base a l os = (Inr (), l1, os1)"
  shows "initialized (component_part l1) \<and> (\<exists>fs. fifos (component_part l1) = Some fs \<and> list_all (\<lambda>f. \<not> fd_closed f) fs)"
proof -
  obtain r c1 os' where ci: "Component_init base (component_part l) os = (r, c1, os')"
    by (cases "Component_init base (component_part l) os") auto
  with assms have r: "r = Inr ()" by (cases r) (auto simp: Looped_init_def)
  from Component_init_open [OF ci [unfolded r]] obtain fs where
    fs: "fifos c1 = Some fs" "list_all (\<lambda>f. \<not> fd_closed f) fs" by blast
  from assms ci r fs show ?thesis
    by (auto simp: Looped_init_def Let_def Looped_start_def checkInit_def set_init_def
             split: if_splits)
qed

lemma writedata_flag: "fst (writedata (c\<lparr>initialized := b\<rparr>) d ch) = fst (writedata c d ch)"
  by (simp add: writedata_def split: sum.splits option.splits)

lemma readdata_flag: "fst (readdata (c\<lparr>initialized := b\<rparr>) ch) = fst (readdata c ch)"
  by (simp add: readdata_def Let_def split: sum.splits option.splits prod.splits)

lemma not_ready_faults:
  assumes "\<not> ready c ch"
  shows "fst (readdata c ch) =
           Inl (case fifos c of
                  None \<Rightarrow> AttributeError
                | Some fs \<Rightarrow> (case py_index fs ch of None \<Rightarrow> IndexError | Some k \<Rightarrow> ValueError))
       \<and> fst (writedata c d ch) =
           (case serialize d of
              Inl e \<Rightarrow> Inl e
            | Inr bs \<Rightarrow>
                Inl (case fifos c of
                       None \<Rightarrow> AttributeError
                     | Some fs \<Rightarrow> (case py_index fs ch of None \<Rightarrow> IndexError | Some k \<Rightarrow> ValueError)))"
  using assms
  by (auto simp: ready_def writedata_def readdata_def fifo_write_def fifo_read_def
           split: option.splits sum.splits)

lemma ready_proceeds:
  assumes "ready c ch"
  shows "fst (writedata c d ch) = (case serialize d of Inl e \<Rightarrow> Inl e | Inr bs \<Rightarrow> Inr ())
       \<and> fst (readdata c ch) =
           (if LF \<in> set (pending c ch) then line_outcome (takeWhile (\<lambda>x. x \<noteq> LF) (pending c ch))
            else Inr None)"
proof -
  have w: "fst (writedata c d ch) = (case serialize d of Inl e \<Rightarrow> Inl e | Inr bs \<Rightarrow> Inr ())"
  proof (cases "serialize d")
    case (Inl e)
    then show ?thesis by (simp add: writedata_def)
  next
    case (Inr bs)
    from writedata_ready [OF assms Inr] Inr show ?thesis by simp
  qed
  obtain r c' where r: "readdata c ch = (r, c')" by (cases "readdata c ch")
  from readdata_pending [OF assms r] r w show ?thesis by (simp split: if_splits)
qed

text \<open>
  Claim C4, as amended. \<open>_checkInit()\<close> signals a usage fault exactly when the flag is
  false. The base \<open>init\<close> opens every channel pipe and leaves the flag as it was; the flag
  is set by \<open>_set_init\<close>, which \<open>LoopedComponent.init\<close> calls after the base \<open>init\<close>, so
  after that \<open>init\<close> the flag is true and all channel pipes are open; after \<open>cleanup\<close> the
  flag is false and all channel pipes are closed. \<open>writedata\<close> and \<open>readdata\<close> never
  consult the flag: they raise when the channel has no open pipe (the pipes were never
  opened, the index is out of range, or the pipe is closed), and otherwise act on the
  pipe, whatever the flag.
\<close>

theorem initialized_flag_and_protocol:
  "checkInit c False = (if initialized c then Inr None else Inl RuntimeError)
   \<and> initialized (fst (snd (Component_init base c os))) = initialized c
   \<and> (Component_init base c os = (Inr (), c1, os1) \<longrightarrow>
        (\<exists>fs. fifos c1 = Some fs \<and> list_all (\<lambda>f. \<not> fd_closed f) fs))
   \<and> (Looped_init base a l os = (Inr (), l1, os1) \<longrightarrow>
        initialized (component_part l1) \<and> (\<exists>fs. fifos (component_part l1) = Some fs \<and> list_all (\<lambda>f. \<not> fd_closed f) fs))
   \<and> (Component_cleanup c os = (Inr (), c2, os2) \<longrightarrow>
        \<not> initialized c2 \<and> (\<exists>fs. fifos c2 = Some fs \<and> list_all fd_closed fs))
   \<and> fst (writedata (c\<lparr>initialized := b\<rparr>) d channel) = fst (writedata c d channel)
   \<and> fst (readdata (c\<lparr>initialized := b\<rparr>) channel) = fst (readdata c channel)
   \<and> (\<not> ready c channel \<longrightarrow>
        fst (readdata c channel) =
          Inl (case fifos c of
                 None \<Rightarrow> AttributeError
               | Some fs \<Rightarrow> (case py_index fs channel of None \<Rightarrow> IndexError | Some k \<Rightarrow> ValueError))
        \<and> fst (writedata c d channel) =
          (case serialize d of
             Inl e \<Rightarrow> Inl e
           | Inr bs \<Rightarrow>
               Inl (case fifos c of
                      None \<Rightarrow> AttributeError
                    | Some fs \<Rightarrow>
                        (case py_index fs channel of None \<Rightarrow> IndexError | Some k \<Rightarrow> ValueError))))
   \<and> (ready c channel \<longrightarrow>
        fst (writedata c d channel) = (case serialize d of Inl e \<Rightarrow> Inl e | Inr bs \<Rightarrow> Inr ())
        \<and> fst (readdata c channel) =
            (if LF \<in> set (pending c channel)
             then line_outcome (takeWhile (\<lambda>x. x \<noteq> LF) (pending c channel))
             else Inr None))"
proof (intro conjI impI)
  show "checkInit c False = (if initialized c then Inr None else Inl RuntimeError)"
    by (simp add: checkInit_def)
qed (simp_all add: Component_init_flag Component_init_open Looped_init_ok Component_cleanup_closed
       writedata_flag readdata_flag not_ready_faults ready_proceeds)
lemma led_looped_init:
  "Looped_init (BASE_DIR Map.empty) False \<lparr>component_part = led, started = False\<rparr> os0 =
     (Inr (), \<lparr>component_part = led_open\<lparr>initialized := True\<rparr>, started = False\<rparr>,
      \<lparr>nodes = [ascii ''/var/run/led0'' \<mapsto> Fifo 438], umask = 18\<rparr>)"
  by (simp add: Looped_init_def led_init set_init_def)

lemma led_cleanup:
  "Component_cleanup led_open \<lparr>nodes = [ascii ''/var/run/led0'' \<mapsto> Fifo 438], umask = 18\<rparr> =
     (Inr (), led\<lparr>fifos := Some [\<lparr>filename = ascii ''/var/run/led0'', fd_closed = True, pipe = []\<rparr>]\<rparr>,
      os0)"
  by (simp add: Component_cleanup_def led_open_def led_def os0_def FIFOFile_close_def os_unlink_def)

lemma led_fields:
  "fifos led_open = Some [\<lparr>filename = ascii ''/var/run/led0'', fd_closed = False, pipe = []\<rparr>]"
  "initialized led_open = False" "initialized led = False" "fifos led = None"
  by (simp_all add: led_open_def led_def)

lemma not_ready_led: "\<not> ready led 0"
  by (simp add: ready_def led_def)

theorem initialized_flag_and_protocol_witness:
  "checkInit led False = Inl RuntimeError
   \<and> Component_init (BASE_DIR Map.empty) led os0 =
       (Inr (), led_open, \<lparr>nodes = [ascii ''/var/run/led0'' \<mapsto> Fifo 438], umask = 18\<rparr>)
   \<and> initialized (fst (snd (Component_init (BASE_DIR Map.empty) led os0))) = initialized led
   \<and> (\<exists>fs. fifos led_open = Some fs \<and> list_all (\<lambda>f. \<not> fd_closed f) fs)
   \<and> Looped_init (BASE_DIR Map.empty) False \<lparr>component_part = led, started = False\<rparr> os0 =
       (Inr (), \<lparr>component_part = led_open\<lparr>initialized := True\<rparr>, started = False\<rparr>,
        \<lparr>nodes = [ascii ''/var/run/led0'' \<mapsto> Fifo 438], umask = 18\<rparr>)
   \<and> initialized (led_open\<lparr>initialized := True\<rparr>)
   \<and> Component_cleanup led_open \<lparr>nodes = [ascii ''/var/run/led0'' \<mapsto> Fifo 438], umask = 18\<rparr> =
       (Inr (), led\<lparr>fifos := Some [\<lparr>filename = ascii ''/var/run/led0'', fd_closed = True, pipe = []\<rparr>]\<rparr>, os0)
   \<and> \<not> ready led 0 \<and> fst (writedata led (Scalar (PyInt 7)) 0) = Inl AttributeError
   \<and> fst (readdata led 0) = Inl AttributeError
   \<and> ready led_open 0 \<and> fst (writedata led_open (Scalar (PyInt 7)) 0) = Inr ()
   \<and> fst (readdata led_open 0) = Inr None"
  using initialized_flag_and_protocol
          [where c = led and base = "BASE_DIR Map.empty" and os = os0 and ?c1.0 = led_open
             and ?os1.0 = "\<lparr>nodes = [ascii ''/var/run/led0'' \<mapsto> Fifo 438], umask = 18\<rparr>"
             and a = False and l = "\<lparr>component_part = led, started = False\<rparr>"
             and ?l1.0 = "\<lparr>component_part = led_open\<lparr>initialized := True\<rparr>, started = False\<rparr>"
             and channel = 0 and d = "Scalar (PyInt 7)"]
        initialized_flag_and_protocol
          [where c = led_open and os = "\<lparr>nodes = [ascii ''/var/run/led0'' \<mapsto> Fifo 438], umask = 18\<rparr>"
             and ?c2.0 = "led\<lparr>fifos := Some [\<lparr>filename = ascii ''/var/run/led0'', fd_closed = True, pipe = []\<rparr>]\<rparr>"
             and ?os2.0 = os0 and channel = 0 and d = "Scalar (PyInt 7)"]
  by (simp add: led_init led_looped_init led_cleanup not_ready_led ready_led_open pending_led_open ser2
        led_fields)

text \<open>
  Claim C4 as stated fails on \<open>Component("led")\<close> after \<open>init()\<close>: its pipe is open and the
  flag is false, and \<open>writedata\<close> and \<open>readdata\<close> return without a fault.
\<close>

theorem initialized_flag_counterexample:
  "Component_init (BASE_DIR Map.empty) led os0 =
     (Inr (), led_open, \<lparr>nodes = [ascii ''/var/run/led0'' \<mapsto> Fifo 438], umask = 18\<rparr>)
   \<and> fifos led_open = Some [\<lparr>filename = ascii ''/var/run/led0'', fd_closed = False, pipe = []\<rparr>]
   \<and> \<not> initialized led_open
   \<and> fst (writedata led_open (Scalar (PyInt 7)) 0) = Inr ()
   \<and> fst (readdata led_open 0) = Inr None"
proof -
  obtain r c' where r: "readdata led_open 0 = (r, c')" by (cases "readdata led_open 0")
  from readdata_pending [OF ready_led_open r] have "fst (readdata led_open 0) = Inr None"
    by (simp add: pending_led_open r)
  with writedata_ready [OF ready_led_open ser2] show ?thesis
    by (simp add: led_init led_fields)
qed

section \<open>Handlers: \<open>EventedInput\<close>\<close>

lemma get_handlers_next_id: "next_id (snd (get_handlers r pin g)) = next_id r"
  by (simp add: get_handlers_def split: option.splits)

lemma get_handlers_fst:
  "fst (get_handlers r pin g) =
     (if g then Inr Generic else case pin of None \<Rightarrow> Inl TypeError | Some p \<Rightarrow> Inr (Pin p))"
  by (simp add: get_handlers_def split: option.splits)

lemma handlers_of_get: "handlers_of (snd (get_handlers r pin g)) k = handlers_of r k"
  by (auto simp: get_handlers_def handlers_of_def split: option.splits)

lemma add_handler_result:
  "fst (add_handler r cb pin generic) =
     (if pin = None \<and> \<not> generic then Inl TypeError else Inr (next_id r + 1))"
  by (cases "get_handlers (r\<lparr>next_id := next_id r + 1\<rparr>) pin generic")
     (auto simp: add_handler_def Let_def get_handlers_def split: option.splits sum.splits if_splits)

lemma add_handler_next_id: "next_id (snd (add_handler r cb pin generic)) = next_id r + 1"
  by (cases "get_handlers (r\<lparr>next_id := next_id r + 1\<rparr>) pin generic")
     (auto simp: add_handler_def Let_def get_handlers_def split: option.splits sum.splits if_splits)

lemma remove_handler_next_id: "next_id (snd (remove_handler r hid pin generic)) = next_id r"
  by (cases "get_handlers r pin generic")
     (auto simp: remove_handler_def get_handlers_def split: option.splits sum.splits if_splits)

lemma run_calls_ids:
  "sorted_wrt (<) (issued (fst (run_calls r cs)))
   \<and> (\<forall>i \<in> set (issued (fst (run_calls r cs))). next_id r < i)"
proof (induction cs arbitrary: r)
  case Nil
  show ?case by simp
next
  case (Cons c cs)
  show ?case
  proof (cases c)
    case (Add cb pin generic)
    obtain res r1 where a: "add_handler r cb pin generic = (res, r1)"
      by (cases "add_handler r cb pin generic")
    obtain rs r2 where b: "run_calls r1 cs = (rs, r2)" by (cases "run_calls r1 cs")
    from add_handler_next_id [of r cb pin generic] a have n: "next_id r1 = next_id r + 1" by simp
    from add_handler_result [of r cb pin generic] a
    have res: "res = (if pin = None \<and> \<not> generic then Inl TypeError else Inr (next_id r + 1))" by simp
    from Cons.IH [of r1] b n have ih: "sorted_wrt (<) (issued rs)" "\<forall>i \<in> set (issued rs). next_id r + 1 < i"
      by auto
    show ?thesis using ih by (auto simp: Add a b res)
  next
    case (Remove hid pin generic)
    obtain res r1 where a: "remove_handler r hid pin generic = (res, r1)"
      by (cases "remove_handler r hid pin generic")
    from remove_handler_next_id [of r hid pin generic] a have n: "next_id r1 = next_id r" by simp
    from Cons.IH [of r1] n show ?thesis by (simp add: Remove a)
  qed
qed

text \<open>
  Claim C7, as amended. In every sequence of \<open>add_handler\<close> and \<open>remove_handler\<close> calls on
  a new registry, the ids that \<open>add_handler\<close> returns strictly increase, so none is
  returned twice, and none is negative. The counter starts at -1; every \<open>add_handler\<close>
  call advances it by one, also a call that raises \<open>TypeError\<close> for lack of a pin, and a
  call that does not raise returns the advanced counter: the first call returns 0 unless
  it raises. \<open>remove_handler\<close> leaves the counter alone.
\<close>

theorem handler_ids_fresh:
  "sorted_wrt (<) (issued (fst (run_calls EventedInput_new cs)))
   \<and> distinct (issued (fst (run_calls EventedInput_new cs)))
   \<and> list_all (\<lambda>i. 0 \<le> i) (issued (fst (run_calls EventedInput_new cs)))
   \<and> next_id EventedInput_new = - 1
   \<and> fst (add_handler r cb pin generic) =
       (if pin = None \<and> \<not> generic then Inl TypeError else Inr (next_id r + 1))
   \<and> next_id (snd (add_handler r cb pin generic)) = next_id r + 1
   \<and> next_id (snd (remove_handler r hid pin generic)) = next_id r"
proof -
  let ?ids = "issued (fst (run_calls EventedInput_new cs))"
  from run_calls_ids [of EventedInput_new cs]
  have s: "sorted_wrt (<) ?ids" and p: "\<forall>i \<in> set ?ids. - 1 < i"
    by (simp_all add: EventedInput_new_def)
  from s have d: "distinct ?ids" by (simp add: strict_sorted_iff)
  from p have l: "list_all (\<lambda>i. 0 \<le> i) ?ids" by (auto simp: list_all_iff)
  show ?thesis using s d l
    by (simp add: add_handler_result add_handler_next_id remove_handler_next_id EventedInput_new_def)
qed
theorem handler_ids_fresh_witness:
  "issued (fst (run_calls EventedInput_new
      [Add (\<lambda>(p::nat) (w::nat). (None, w)) (Some 5) False, Remove 0 (Some 5) False,
       Add (\<lambda>p w. (None, w)) None True])) = [0, 1]
   \<and> distinct (issued (fst (run_calls EventedInput_new
      [Add (\<lambda>(p::nat) (w::nat). (None, w)) (Some 5) False, Remove 0 (Some 5) False,
       Add (\<lambda>p w. (None, w)) None True])))"
  using handler_ids_fresh [of "[Add (\<lambda>(p::nat) (w::nat). (None, w)) (Some 5) False, Remove 0 (Some 5) False,
       Add (\<lambda>p w. (None, w)) None True]"]
  by (simp add: add_handler_def get_handlers_def handlers_of_def remove_handler_def dict_del_def
        EventedInput_new_def Let_def)

text \<open>
  Claim C7 as stated fails: after \<open>add_handler(cb)\<close>, which raises \<open>TypeError\<close> and still
  consumes id 0, the first id issued, by \<open>add_handler(cb, 5)\<close>, is 1.
\<close>

theorem first_id_counterexample:
  "issued (fst (run_calls EventedInput_new
      [Add (\<lambda>(p::nat) (w::nat). (None, w)) None False,
       Add (\<lambda>p w. (None, w)) (Some 5) False])) = [1]"
  by (simp add: add_handler_def get_handlers_def handlers_of_def EventedInput_new_def Let_def)

lemma handle_pin_dispatch_eq:
  "fst (handle_pin r (Some p) w) = dispatch (handlers_of r Generic @ handlers_of r (Pin p)) p w"
  by (auto simp: handle_pin_def get_handlers_def handlers_of_def split: option.splits)

lemma handle_pin_registry:
  "handlers_of (snd (handle_pin r pin w)) k = handlers_of r k"
  by (auto simp: handle_pin_def get_handlers_def handlers_of_def split: option.splits)

lemma dispatch_all_caught:
  assumes "\<forall>h \<in> set hs. \<forall>w' e. fst (snd h p w') = Some e \<longrightarrow> is_Exception e"
  shows "escaped (dispatch hs p w) = None \<and> called (dispatch hs p w) = map fst hs"
  using assms
proof (induction hs arbitrary: w)
  case Nil
  then show ?case by simp
next
  case (Cons h hs)
  obtain hid cb where h: "h = (hid, cb)" by (cases h)
  obtain res w1 where c: "cb p w = (res, w1)" by (cases "cb p w")
  from Cons.prems have rest: "\<forall>h \<in> set hs. \<forall>w' e. fst (snd h p w') = Some e \<longrightarrow> is_Exception e"
    by simp
  from Cons.IH [OF rest, of w1] have ih:
    "escaped (dispatch hs p w1) = None" "called (dispatch hs p w1) = map fst hs" by auto
  show ?case
  proof (cases res)
    case None
    with ih show ?thesis by (simp add: h c Let_def)
  next
    case (Some e)
    from c Some have "fst (snd h p w) = Some e" by (simp add: h)
    with Cons.prems have "is_Exception e" by (metis list.set_intros(1))
    with ih Some show ?thesis by (simp add: h c Let_def)
  qed
qed

lemma dispatch_general:
  "(\<forall>e. escaped (dispatch hs p w) = Some e \<longrightarrow> \<not> is_Exception e)
   \<and> called (dispatch hs p w) = take (length (called (dispatch hs p w))) (map fst hs)
   \<and> (escaped (dispatch hs p w) = None \<longrightarrow> called (dispatch hs p w) = map fst hs)
   \<and> list_all is_Exception (printed (dispatch hs p w))"
proof (induction hs arbitrary: w)
  case Nil
  show ?case by simp
next
  case (Cons h hs)
  obtain hid cb where h: "h = (hid, cb)" by (cases h)
  obtain res w1 where c: "cb p w = (res, w1)" by (cases "cb p w")
  note ih = Cons.IH [of w1]
  show ?case
  proof (cases res)
    case None
    with ih show ?thesis by (simp add: h c Let_def)
  next
    case (Some e)
    with ih show ?thesis by (simp add: h c Let_def)
  qed
qed
lemma add_handler_handlers:
  "handlers_of (snd (add_handler r cb pin g)) k =
     (case (if g then Some Generic else map_option Pin pin) of
        None \<Rightarrow> handlers_of r k
      | Some key \<Rightarrow>
          if k = key then dict_set (handlers_of r key) (next_id r + 1) cb else handlers_of r k)"
  by (auto simp: add_handler_def get_handlers_def handlers_of_def Let_def split: option.splits)

lemma remove_handler_handlers:
  "\<exists>P. handlers_of (snd (remove_handler r hid pin g)) k = filter P (handlers_of r k)"
proof (cases "handlers_of (snd (remove_handler r hid pin g)) k = handlers_of r k")
  case True
  then show ?thesis by (intro exI [of _ "\<lambda>x. True"]) simp
next
  case False
  then have "handlers_of (snd (remove_handler r hid pin g)) k =
      filter (\<lambda>kv. fst kv \<noteq> hid) (handlers_of r k)"
    by (auto simp: remove_handler_def get_handlers_def handlers_of_def dict_del_def
             split: option.splits if_splits)
  then show ?thesis by blast
qed

lemma dict_set_fresh: "k \<notin> set (map fst d) \<Longrightarrow> dict_set d k v = d @ [(k, v)]"
  by (induction d) auto

lemma registry_ok_new: "registry_ok EventedInput_new"
  by (simp add: registry_ok_def EventedInput_new_def handlers_of_def)

lemma registry_ok_add:
  assumes "registry_ok r"
  shows "registry_ok (snd (add_handler r cb pin g))"
  unfolding registry_ok_def
proof (intro allI)
  fix k
  let ?n = "next_id r + 1"
  from assms have ok: "\<And>k. sorted_wrt (<) (map fst (handlers_of r k))"
    "\<And>k. list_all (\<lambda>i. i \<le> next_id r) (map fst (handlers_of r k))"
    by (simp_all add: registry_ok_def)
  have fresh: "\<And>k. ?n \<notin> set (map fst (handlers_of r k))"
    using ok(2) by (fastforce simp: list_all_iff)
  have up: "\<And>k. list_all (\<lambda>i. i \<le> ?n) (map fst (handlers_of r k))"
    using ok(2) by (fastforce simp: list_all_iff)
  have app: "\<And>k. sorted_wrt (<) (map fst (handlers_of r k @ [(?n, cb)]))
      \<and> list_all (\<lambda>i. i \<le> ?n) (map fst (handlers_of r k @ [(?n, cb)]))"
    using ok(1) ok(2) up by (fastforce simp: sorted_wrt_append list_all_iff)
  show "sorted_wrt (<) (map fst (handlers_of (snd (add_handler r cb pin g)) k))
     \<and> list_all (\<lambda>i. i \<le> next_id (snd (add_handler r cb pin g)))
         (map fst (handlers_of (snd (add_handler r cb pin g)) k))"
    unfolding add_handler_next_id add_handler_handlers
    using ok(1) up app dict_set_fresh [OF fresh]
    by (auto split: option.splits)
qed

lemma sorted_wrt_map_filter:
  "sorted_wrt R (map f xs) \<Longrightarrow> sorted_wrt R (map f (filter P xs))"
  by (induction xs) auto

lemma registry_ok_remove:
  assumes "registry_ok r"
  shows "registry_ok (snd (remove_handler r hid pin g))"
  unfolding registry_ok_def
proof (intro allI)
  fix k
  from remove_handler_handlers [of r hid pin g k] obtain P where
    P: "handlers_of (snd (remove_handler r hid pin g)) k = filter P (handlers_of r k)" by blast
  from assms have ok: "sorted_wrt (<) (map fst (handlers_of r k))"
    "list_all (\<lambda>i. i \<le> next_id r) (map fst (handlers_of r k))"
    by (simp_all add: registry_ok_def)
  from ok(2) have b: "list_all (\<lambda>i. i \<le> next_id r) (map fst (filter P (handlers_of r k)))"
    by (auto simp: list_all_iff)
  show "sorted_wrt (<) (map fst (handlers_of (snd (remove_handler r hid pin g)) k))
     \<and> list_all (\<lambda>i. i \<le> next_id (snd (remove_handler r hid pin g)))
         (map fst (handlers_of (snd (remove_handler r hid pin g)) k))"
    unfolding P remove_handler_next_id
    using sorted_wrt_map_filter [OF ok(1), of P] b by simp
qed

lemma registry_ok_run: "registry_ok r \<Longrightarrow> registry_ok (snd (run_calls r cs))"
proof (induction cs arbitrary: r)
  case Nil
  then show ?case by simp
next
  case (Cons c cs)
  show ?case
  proof (cases c)
    case (Add cb pin generic)
    from Cons.IH [OF registry_ok_add [OF Cons.prems, of cb pin generic]]
    show ?thesis by (auto simp: Add split: prod.splits)
  next
    case (Remove hid pin generic)
    from Cons.IH [OF registry_ok_remove [OF Cons.prems, of hid pin generic]]
    show ?thesis by (auto simp: Remove split: prod.splits)
  qed
qed

text \<open>
  Claim C6, as amended. On every registry reached by \<open>add_handler\<close> and \<open>remove_handler\<close>
  calls and for every pin, \<open>_handle_pin\<close> runs the loop over the generic handlers followed
  by the pin's handlers, each group in registration order (increasing id). If the
  exceptions the callbacks raise all derive from \<open>Exception\<close>, every handler is called
  exactly once, in that order, and the exceptions are printed. An exception leaves
  \<open>_handle_pin\<close> only if it does not derive from \<open>Exception\<close>; the handlers called are
  then those up to the one that raised it.
\<close>

theorem handle_pin_dispatch:
  assumes "r = snd (run_calls EventedInput_new cs)"
    and "hs = handlers_of r Generic @ handlers_of r (Pin p)"
    and "d = fst (handle_pin r (Some p) w)"
  shows "d = dispatch hs p w
     \<and> sorted_wrt (<) (map fst (handlers_of r Generic))
     \<and> sorted_wrt (<) (map fst (handlers_of r (Pin p)))
     \<and> ((\<forall>h \<in> set hs. \<forall>w' e. fst (snd h p w') = Some e \<longrightarrow> is_Exception e) \<longrightarrow>
          escaped d = None \<and> called d = map fst hs)
     \<and> (\<forall>e. escaped d = Some e \<longrightarrow> \<not> is_Exception e)
     \<and> called d = take (length (called d)) (map fst hs)
     \<and> (escaped d = None \<longrightarrow> called d = map fst hs)
     \<and> list_all is_Exception (printed d)"
proof -
  have ok: "registry_ok r" unfolding assms(1) by (rule registry_ok_run [OF registry_ok_new])
  have d: "d = dispatch hs p w" unfolding assms(2,3) by (rule handle_pin_dispatch_eq)
  from ok have s: "sorted_wrt (<) (map fst (handlers_of r Generic))"
    "sorted_wrt (<) (map fst (handlers_of r (Pin p)))" by (simp_all add: registry_ok_def)
  show ?thesis
    unfolding d using s dispatch_all_caught [of hs p w] dispatch_general [of hs p w] by blast
qed
lemmas registry_eval =
  add_handler_def get_handlers_def handlers_of_def remove_handler_def dict_del_def
  EventedInput_new_def handle_pin_def Let_def

theorem handle_pin_dispatch_witness:
  "called (fst (handle_pin (snd (run_calls EventedInput_new
      [Add (\<lambda>(p::nat) (w::nat). (None, w + 10)) None True,
       Add (\<lambda>p w. (Some (UserException 1), w)) (Some 5) False,
       Add (\<lambda>p w. (None, Suc w)) (Some 5) False])) (Some 5) 0)) = [0, 1, 2]
   \<and> escaped (fst (handle_pin (snd (run_calls EventedInput_new
      [Add (\<lambda>(p::nat) (w::nat). (None, w + 10)) None True,
       Add (\<lambda>p w. (Some (UserException 1), w)) (Some 5) False,
       Add (\<lambda>p w. (None, Suc w)) (Some 5) False])) (Some 5) 0)) = None
   \<and> world (fst (handle_pin (snd (run_calls EventedInput_new
      [Add (\<lambda>(p::nat) (w::nat). (None, w + 10)) None True,
       Add (\<lambda>p w. (Some (UserException 1), w)) (Some 5) False,
       Add (\<lambda>p w. (None, Suc w)) (Some 5) False])) (Some 5) 0)) = 11
   \<and> printed (fst (handle_pin (snd (run_calls EventedInput_new
      [Add (\<lambda>(p::nat) (w::nat). (None, w + 10)) None True,
       Add (\<lambda>p w. (Some (UserException 1), w)) (Some 5) False,
       Add (\<lambda>p w. (None, Suc w)) (Some 5) False])) (Some 5) 0)) = [UserException 1]"
  using handle_pin_dispatch [OF refl refl refl, of
      "[Add (\<lambda>(p::nat) (w::nat). (None, w + 10)) None True,
        Add (\<lambda>p w. (Some (UserException 1), w)) (Some 5) False,
        Add (\<lambda>p w. (None, Suc w)) (Some 5) False]" 5 0]
  by (simp add: registry_eval)

text \<open>
  Claim C6 as stated fails: of two handlers on pin 5, the first raises \<open>SystemExit\<close>;
  \<open>except Exception\<close> does not catch it, and the second handler is not called.
\<close>

theorem raising_handler_counterexample:
  "map fst (handlers_of (snd (run_calls EventedInput_new
      [Add (\<lambda>(p::nat) (w::nat). (Some SystemExit, w)) (Some 5) False,
       Add (\<lambda>p w. (None, Suc w)) (Some 5) False])) (Pin 5)) = [0, 1]
   \<and> called (fst (handle_pin (snd (run_calls EventedInput_new
      [Add (\<lambda>(p::nat) (w::nat). (Some SystemExit, w)) (Some 5) False,
       Add (\<lambda>p w. (None, Suc w)) (Some 5) False])) (Some 5) 0)) = [0]
   \<and> escaped (fst (handle_pin (snd (run_calls EventedInput_new
      [Add (\<lambda>(p::nat) (w::nat). (Some SystemExit, w)) (Some 5) False,
       Add (\<lambda>p w. (None, Suc w)) (Some 5) False])) (Some 5) 0)) = Some SystemExit
   \<and> world (fst (handle_pin (snd (run_calls EventedInput_new
      [Add (\<lambda>(p::nat) (w::nat). (Some SystemExit, w)) (Some 5) False,
       Add (\<lambda>p w. (None, Suc w)) (Some 5) False])) (Some 5) 0)) = 0"
  by (simp add: registry_eval)

section \<open>The polling loop: \<open>LoopedComponent\<close>\<close>

lemma Looped_start_spec:
  "Looped_start l = (if initialized (component_part l) then (Inr (), l\<lparr>started := True\<rparr>) else (Inl RuntimeError, l))"
  by (simp add: Looped_start_def checkInit_def)

lemma Looped_cleanup_spec:
  "Looped_cleanup l os =
     (case Component_cleanup (component_part l) os of (r, c1, os1) \<Rightarrow> (r, \<lparr>component_part = c1, started = False\<rparr>, os1))"
  by (cases l) (simp add: Looped_cleanup_def Looped_stop_def Let_def split: prod.splits)

lemma loop_step_ticks:
  "ticks (loop_step tick s) = (if pc s = AtTick then Suc (ticks s) else ticks s)"
  by (cases "pc s") (simp_all add: loop_step_def split: prod.splits)

lemma loop_step_to_tick:
  "pc (loop_step tick s) = AtTick \<longleftrightarrow> pc s = AtTest \<and> started (obj s)"
  by (cases "pc s") (auto simp: loop_step_def split: prod.splits option.splits)

lemma loop_iteration_ticks:
  assumes "pc s = AtTest"
  shows "ticks (loop_iteration tick s) = (if started (obj s) then Suc (ticks s) else ticks s)"
proof -
  have p1: "pc (loop_step tick s) = AtTick \<longleftrightarrow> started (obj s)"
    using assms by (simp add: loop_step_to_tick)
  have "pc (loop_step tick s) \<noteq> AtTest" using assms by (simp add: loop_step_def)
  then have p2: "pc (loop_step tick (loop_step tick s)) \<noteq> AtTick"
    by (simp add: loop_step_to_tick)
  show ?thesis
    unfolding loop_iteration_def loop_step_ticks [of tick "loop_step tick (loop_step tick s)"]
      loop_step_ticks [of tick "loop_step tick s"] loop_step_ticks [of tick s]
    using p1 p2 assms by simp
qed

lemma Looped_init_started:
  "started (fst (snd (Looped_init base False l os))) = started l"
  by (simp add: Looped_init_def Let_def split: prod.splits sum.splits)

lemma quiet_step:
  assumes quiet: "\<forall>l os. \<not> started l \<longrightarrow> \<not> started (fst (snd (tick l os)))"
    and "\<not> started (obj s)" "e \<noteq> CallStart" "e \<noteq> CallInit True"
  shows "\<not> started (obj (step base tick e s))
     \<and> ticks (step base tick e s) + (if pc (step base tick e s) = AtTick then 1 else 0)
         \<le> ticks s + (if pc s = AtTick then 1 else 0)"
proof (cases e)
  case (CallInit a)
  with assms(4) have a: "a = False" by simp
  from Looped_init_started [of base "obj s" "sys_os s"] assms(2)
  show ?thesis by (auto simp: CallInit a split: prod.splits)
next
  case CallStart
  with assms(3) show ?thesis by simp
next
  case CallStop
  then show ?thesis by (simp add: Looped_stop_def)
next
  case CallCleanup
  then show ?thesis by (simp add: Looped_cleanup_spec split: prod.splits)
next
  case LoopStep
  show ?thesis
  proof (cases "pc s")
    case AtTest
    with assms(2) show ?thesis by (simp add: LoopStep loop_step_def)
  next
    case AtTick
    obtain r l1 os1 where t: "tick (obj s) (sys_os s) = (r, l1, os1)"
      by (cases "tick (obj s) (sys_os s)") auto
    from quiet assms(2) t have "\<not> started l1" by (metis fst_conv snd_conv)
    then show ?thesis by (simp add: LoopStep loop_step_def AtTick t split: option.splits)
  next
    case AtWait
    then show ?thesis using assms(2) by (simp add: LoopStep loop_step_def)
  next
    case Dead
    then show ?thesis using assms(2) by (simp add: LoopStep loop_step_def)
  qed
qed

lemma quiet_run:
  assumes quiet: "\<forall>l os. \<not> started l \<longrightarrow> \<not> started (fst (snd (tick l os)))"
    and "\<not> started (obj s)" "CallStart \<notin> set es" "CallInit True \<notin> set es"
  shows "ticks (run base tick es s) \<le> ticks s + (if pc s = AtTick then 1 else 0)"
  using assms(2-)
proof (induction es arbitrary: s)
  case Nil
  then show ?case by simp
next
  case (Cons e es)
  from Cons.prems have e: "e \<noteq> CallStart" "e \<noteq> CallInit True" by auto
  from quiet_step [OF quiet Cons.prems(1) e, of base]
  have st: "\<not> started (obj (step base tick e s))"
    "ticks (step base tick e s) + (if pc (step base tick e s) = AtTick then 1 else 0)
       \<le> ticks s + (if pc s = AtTick then 1 else 0)" by auto
  from Cons.prems have "CallStart \<notin> set es" "CallInit True \<notin> set es" by auto
  from Cons.IH [OF st(1) this] st(2) show ?case by simp
qed

text \<open>
  Claim C8, as amended. \<open>start()\<close> raises when the component is not initialized and
  otherwise sets \<open>started\<close>; \<open>stop()\<close> clears it unconditionally; \<open>cleanup()\<close> clears it
  before the base cleanup runs. A step of the loop calls \<open>tick\<close> only when the thread
  stands after a test of \<open>started\<close> that succeeded, and a whole pass of the loop with no
  call in between calls \<open>tick\<close> exactly when \<open>started\<close> is true. The test and the call are
  separate steps: after \<open>stop()\<close>, as long as nothing starts the component again, \<open>tick\<close>
  is called at most once more, and only if the thread had already passed the test when
  \<open>stop()\<close> ran.
\<close>

theorem looped_state_machine:
  "Looped_start l =
      (if initialized (component_part l) then (Inr (), l\<lparr>started := True\<rparr>) else (Inl RuntimeError, l))
   \<and> Looped_stop l = l\<lparr>started := False\<rparr>
   \<and> Looped_cleanup l os =
       (case Component_cleanup (component_part l) os of
          (r, c1, os1) \<Rightarrow> (r, \<lparr>component_part = c1, started = False\<rparr>, os1))
   \<and> ticks (loop_step tick s) = (if pc s = AtTick then Suc (ticks s) else ticks s)
   \<and> (pc (loop_step tick s) = AtTick \<longleftrightarrow> pc s = AtTest \<and> started (obj s))
   \<and> (pc s = AtTest \<longrightarrow>
        ticks (loop_iteration tick s) = (if started (obj s) then Suc (ticks s) else ticks s))
   \<and> ((\<forall>l os. \<not> started l \<longrightarrow> \<not> started (fst (snd (tick l os))))
        \<and> CallStart \<notin> set es \<and> CallInit True \<notin> set es \<longrightarrow>
        ticks (run base tick es (step base tick CallStop s))
          \<le> ticks s + (if pc s = AtTick then 1 else 0))"
proof -
  have last: "(\<forall>l os. \<not> started l \<longrightarrow> \<not> started (fst (snd (tick l os))))
        \<and> CallStart \<notin> set es \<and> CallInit True \<notin> set es \<longrightarrow>
        ticks (run base tick es (step base tick CallStop s))
          \<le> ticks s + (if pc s = AtTick then 1 else 0)"
  proof
    assume a: "(\<forall>l os. \<not> started l \<longrightarrow> \<not> started (fst (snd (tick l os))))
        \<and> CallStart \<notin> set es \<and> CallInit True \<notin> set es"
    have "\<not> started (obj (step base tick CallStop s))" by (simp add: Looped_stop_def)
    from quiet_run [OF _ this, of tick es base] a
    show "ticks (run base tick es (step base tick CallStop s))
          \<le> ticks s + (if pc s = AtTick then 1 else 0)" by simp
  qed
  show ?thesis
    using last
    by (simp add: Looped_start_spec Looped_stop_def Looped_cleanup_spec loop_step_ticks
          loop_step_to_tick loop_iteration_ticks)
qed
lemma led_run4:
  "run (BASE_DIR Map.empty) (\<lambda>l os. (None, l, os)) [CallInit False, CallStart, LoopStep, LoopStep]
     (LoopedComponent_new led os0) =
   \<lparr>obj = \<lparr>component_part = led_open\<lparr>initialized := True\<rparr>, started = True\<rparr>,
    sys_os = \<lparr>nodes = [ascii ''/var/run/led0'' \<mapsto> Fifo 438], umask = 18\<rparr>, pc = AtWait, ticks = 1\<rparr>"
  by (simp add: LoopedComponent_new_def led_looped_init Looped_start_spec loop_step_def)

theorem looped_state_machine_witness:
  "Looped_start \<lparr>component_part = led, started = False\<rparr> =
       (Inl RuntimeError, \<lparr>component_part = led, started = False\<rparr>)
   \<and> Looped_start \<lparr>component_part = led_open\<lparr>initialized := True\<rparr>, started = False\<rparr> =
       (Inr (), \<lparr>component_part = led_open\<lparr>initialized := True\<rparr>, started = True\<rparr>)
   \<and> ticks (run (BASE_DIR Map.empty) (\<lambda>l os. (None, l, os))
              [LoopStep, LoopStep, LoopStep, CallCleanup, LoopStep, LoopStep]
              (step (BASE_DIR Map.empty) (\<lambda>l os. (None, l, os)) CallStop
                 \<lparr>obj = \<lparr>component_part = led_open\<lparr>initialized := True\<rparr>, started = True\<rparr>,
                  sys_os = \<lparr>nodes = [ascii ''/var/run/led0'' \<mapsto> Fifo 438], umask = 18\<rparr>,
                  pc = AtWait, ticks = 1\<rparr>))
       \<le> 1"
  using looped_state_machine
          [where l = "\<lparr>component_part = led, started = False\<rparr>" and tick = "\<lambda>l os. (None, l, os)"
             and base = "BASE_DIR Map.empty"
             and es = "[LoopStep, LoopStep, LoopStep, CallCleanup, LoopStep, LoopStep]"
             and s = "\<lparr>obj = \<lparr>component_part = led_open\<lparr>initialized := True\<rparr>, started = True\<rparr>,
                  sys_os = \<lparr>nodes = [ascii ''/var/run/led0'' \<mapsto> Fifo 438], umask = 18\<rparr>,
                  pc = AtWait, ticks = 1\<rparr>"]
        looped_state_machine
          [where l = "\<lparr>component_part = led_open\<lparr>initialized := True\<rparr>, started = False\<rparr>"]
  by (simp add: led_fields)

text \<open>
  Claim C8 as stated fails: the thread tests \<open>started\<close> after \<open>start()\<close>, the caller then
  runs \<open>stop()\<close>, and the thread's next step calls \<open>tick\<close> with \<open>started\<close> false.
\<close>

theorem tick_after_stop_counterexample:
  "\<not> started (obj (run (BASE_DIR Map.empty) (\<lambda>l os. (None, l, os))
        [CallInit False, CallStart, LoopStep, CallStop] (LoopedComponent_new led os0)))
   \<and> ticks (run (BASE_DIR Map.empty) (\<lambda>l os. (None, l, os))
        [CallInit False, CallStart, LoopStep, CallStop] (LoopedComponent_new led os0)) = 0
   \<and> ticks (run (BASE_DIR Map.empty) (\<lambda>l os. (None, l, os))
        [CallInit False, CallStart, LoopStep, CallStop, LoopStep] (LoopedComponent_new led os0)) = 1"
  by (simp add: LoopedComponent_new_def led_looped_init Looped_start_spec Looped_stop_def loop_step_def)

end
